theory Spec2Isabelle
  imports Main
begin

section \<open>The capability model document\<close>

text \<open>
  \<^verbatim>\<open>parse\<close> walks an already-parsed JSON document typed as \<^verbatim>\<open>CapabilityModel\<close>.
  Every member that the code tests for presence, or dereferences, is optional here:
  \<open>None\<close> stands for a member that is absent (\<^verbatim>\<open>undefined\<close> or \<^verbatim>\<open>null\<close>). The
  elements of the two arrays are objects in this section; the section on documents with
  null elements gives \<^verbatim>\<open>parse\<close> on arrays that may hold \<^verbatim>\<open>null\<close> as well.
\<close>

text \<open>
  Modelled from the spec: the type declarations of \<^verbatim>\<open>../types/capabilities\<close>
  (\<^verbatim>\<open>CapabilityModel\<close> and the types of its members) are not among the sources. They are
  taken from the members that \<^verbatim>\<open>parse\<close> reads: an item of \<^verbatim>\<open>schema.contents\<close> has
  \<^verbatim>\<open>"@type"\<close>, \<^verbatim>\<open>name\<close> and \<^verbatim>\<open>writable\<close>; an entry of \<^verbatim>\<open>implements\<close> has \<^verbatim>\<open>"@type"\<close>,
  \<^verbatim>\<open>name\<close>, \<^verbatim>\<open>"@id"\<close> and \<^verbatim>\<open>schema\<close>; a schema has \<^verbatim>\<open>contents\<close>; the model has
  \<^verbatim>\<open>implements\<close>. Strings are strings, arrays are arrays of objects.
\<close>

record content_item =
  item_at_type :: "string option"
  item_name :: string
  writable :: "bool option"

record interface_schema =
  contents :: "content_item list option"

record interface_entry =
  at_type :: "string option"
  name :: "string option"
  at_id :: "string option"
  schema :: "interface_schema option"

record CapabilityModel =
  implements :: "interface_entry list option"

text \<open>The only error \<^verbatim>\<open>parse\<close> can raise: reading a member of \<^verbatim>\<open>undefined\<close>.\<close>

datatype js_error = TypeError

text \<open>
  JavaScript truthiness of an optional string: \<^verbatim>\<open>undefined\<close>, \<^verbatim>\<open>null\<close> and the empty
  string are falsy, every other string is truthy.
\<close>

definition truthy :: "string option \<Rightarrow> bool" where
  "truthy v = (case v of None \<Rightarrow> False | Some s \<Rightarrow> s \<noteq> [])"

section \<open>The interface descriptor\<close>

text \<open>
  Modelled from the spec: the class \<^verbatim>\<open>CommonInterface\<close> of \<^verbatim>\<open>../models/commonInterface\<close> is
  not among the sources. The spec calls it an interface descriptor exposing typed
  collections of property, command and telemetry names. Its constructor keeps the
  interface name, the interface id and the two callbacks and starts with empty
  collections; \<^verbatim>\<open>addProperty\<close>, \<^verbatim>\<open>addCommand\<close> and \<^verbatim>\<open>addTelemetry\<close> add the given name to
  the collection of their kind and raise nothing. The callbacks are opaque values.
\<close>

record ('p, 'c) CommonInterface =
  ci_name :: string
  ci_id :: "string option"
  properties :: "string list"
  commands :: "string list"
  telemetry :: "string list"
  propertyCallback :: 'p
  commandCallback :: 'c

definition new_CommonInterface ::
  "string \<Rightarrow> string option \<Rightarrow> 'p \<Rightarrow> 'c \<Rightarrow> ('p, 'c) CommonInterface" where
  "new_CommonInterface interfaceName interfaceId pcb ccb =
     \<lparr>ci_name = interfaceName, ci_id = interfaceId, properties = [], commands = [],
      telemetry = [], propertyCallback = pcb, commandCallback = ccb\<rparr>"

definition addProperty ::
  "string \<Rightarrow> bool option \<Rightarrow> ('p, 'c) CommonInterface \<Rightarrow> ('p, 'c) CommonInterface" where
  "addProperty n w cInf = cInf\<lparr>properties := properties cInf @ [n]\<rparr>"

definition addCommand ::
  "string \<Rightarrow> ('p, 'c) CommonInterface \<Rightarrow> ('p, 'c) CommonInterface" where
  "addCommand n cInf = cInf\<lparr>commands := commands cInf @ [n]\<rparr>"

definition addTelemetry ::
  "string \<Rightarrow> ('p, 'c) CommonInterface \<Rightarrow> ('p, 'c) CommonInterface" where
  "addTelemetry n cInf = cInf\<lparr>telemetry := telemetry cInf @ [n]\<rparr>"

section \<open>parse\<close>

text \<open>
  The result \<^verbatim>\<open>res\<close> starts as the object literal \<^verbatim>\<open>{}\<close> and is used as a dictionary
  (\<^verbatim>\<open>InterfaceMap\<close>). It is modelled by the partial map that sends a name \<open>n\<close> to the
  descriptor that the read \<^verbatim>\<open>res[n]\<close> yields; \<^verbatim>\<open>res[n] = cInf\<close> is the map update, and a
  key of the map is a name whose read yields a descriptor. This covers the name
  \<^verbatim>\<open>__proto__\<close>, which the assignment keeps as the prototype of \<^verbatim>\<open>res\<close> and not as an own
  property: the read \<^verbatim>\<open>res["__proto__"]\<close> yields the descriptor all the same. The own
  properties of \<^verbatim>\<open>res\<close>, which are its keys, are given apart from its prototype in the
  section on documents with null elements.
\<close>

type_synonym ('p, 'c) InterfaceMap = "string \<rightharpoonup> ('p, 'c) CommonInterface"

text \<open>
  \<^verbatim>\<open>Array.prototype.forEach\<close> over an array, once with a callback that raises nothing
  and once with a callback that may raise: the first error ends the loop and is the
  outcome.
\<close>

primrec forEach :: "('a \<Rightarrow> 's \<Rightarrow> 's) \<Rightarrow> 'a list \<Rightarrow> 's \<Rightarrow> 's" where
  "forEach f [] s = s"
| "forEach f (x # xs) s = forEach f xs (f x s)"

primrec forEach_raising ::
  "('a \<Rightarrow> 's \<Rightarrow> js_error + 's) \<Rightarrow> 'a list \<Rightarrow> 's \<Rightarrow> js_error + 's" where
  "forEach_raising f [] s = Inr s"
| "forEach_raising f (x # xs) s =
     (case f x s of Inl e \<Rightarrow> Inl e | Inr s' \<Rightarrow> forEach_raising f xs s')"

text \<open>The callback of \<^verbatim>\<open>items.forEach\<close> (lines 14 to 24).\<close>

definition visit_item ::
  "content_item \<Rightarrow> ('p, 'c) CommonInterface \<Rightarrow> ('p, 'c) CommonInterface" where
  "visit_item item cInf =
     (if truthy (item_at_type item) \<and> item_at_type item = Some ''Property''
        then addProperty (item_name item) (writable item) cInf
      else if truthy (item_at_type item) \<and> item_at_type item = Some ''Command''
        then addCommand (item_name item) cInf
      else if truthy (item_at_type item) \<and> item_at_type item = Some ''Telemetry''
        then addTelemetry (item_name item) cInf
      else cInf)"

text \<open>
  The callback of \<^verbatim>\<open>capabilityModel.implements.forEach\<close> (lines 7 to 29). The descriptor
  is constructed before \<^verbatim>\<open>interf.schema.contents\<close> is read; that read raises a
  \<^verbatim>\<open>TypeError\<close> when \<^verbatim>\<open>interf.schema\<close> is absent.
\<close>

definition visit_interface ::
  "'p \<Rightarrow> 'c \<Rightarrow> interface_entry \<Rightarrow> ('p, 'c) InterfaceMap \<Rightarrow> js_error + ('p, 'c) InterfaceMap" where
  "visit_interface pcb ccb interf res =
     (if at_type interf = Some ''InterfaceInstance'' then
        (case name interf of
           None \<Rightarrow> Inr res
         | Some interfaceName \<Rightarrow>
             if truthy (Some interfaceName) \<and> length interfaceName > 0 then
               (let cInf = new_CommonInterface interfaceName (at_id interf) pcb ccb in
                case schema interf of
                  None \<Rightarrow> Inl TypeError
                | Some sch \<Rightarrow>
                    Inr (res(interfaceName \<mapsto>
                      (case contents sch of
                         None \<Rightarrow> cInf
                       | Some items \<Rightarrow>
                           if length items > 0 then forEach visit_item items cInf else cInf))))
             else Inr res)
      else Inr res)"

definition parse ::
  "CapabilityModel option \<Rightarrow> 'p \<Rightarrow> 'c \<Rightarrow> js_error + ('p, 'c) InterfaceMap" where
  "parse capabilityModel pcb ccb =
     (case capabilityModel of
        None \<Rightarrow> Inr Map.empty
      | Some cm \<Rightarrow>
          (case implements cm of
             None \<Rightarrow> Inr Map.empty
           | Some ifs \<Rightarrow>
               if length ifs > 0
               then forEach_raising (visit_interface pcb ccb) ifs Map.empty
               else Inr Map.empty))"

section \<open>Vocabulary of the properties\<close>

text \<open>The entries of \<^verbatim>\<open>capabilityModel.implements\<close>; none when the model or the array is absent.\<close>

definition entries :: "CapabilityModel option \<Rightarrow> interface_entry list" where
  "entries capabilityModel =
     (case capabilityModel of
        None \<Rightarrow> []
      | Some cm \<Rightarrow> (case implements cm of None \<Rightarrow> [] | Some ifs \<Rightarrow> ifs))"

text \<open>An entry whose \<^verbatim>\<open>"@type"\<close> is \<^verbatim>\<open>'InterfaceInstance'\<close> and whose name is the non-empty string \<open>n\<close>.\<close>

definition instance_named :: "interface_entry \<Rightarrow> string \<Rightarrow> bool" where
  "instance_named interf n =
     (at_type interf = Some ''InterfaceInstance'' \<and> name interf = Some n \<and> n \<noteq> [])"

text \<open>An interface instance with a non-empty name that carries no schema object.\<close>

definition lacks_schema :: "interface_entry \<Rightarrow> bool" where
  "lacks_schema interf =
     (at_type interf = Some ''InterfaceInstance'' \<and> truthy (name interf) \<and> schema interf = None)"

text \<open>The items of an entry's \<^verbatim>\<open>schema.contents\<close>; none when the schema or its contents are absent.\<close>

definition items_of :: "interface_entry \<Rightarrow> content_item list" where
  "items_of interf =
     (case schema interf of
        None \<Rightarrow> []
      | Some sch \<Rightarrow> (case contents sch of None \<Rightarrow> [] | Some items \<Rightarrow> items))"

text \<open>The names of the items of a given \<^verbatim>\<open>"@type"\<close>, in document order.\<close>

definition names_of_type :: "string \<Rightarrow> content_item list \<Rightarrow> string list" where
  "names_of_type ty items = map item_name (filter (\<lambda>item. item_at_type item = Some ty) items)"

text \<open>
  The descriptor that \<^verbatim>\<open>parse\<close> builds for an interface instance named \<open>n\<close>: the
  constructor applied to the name and the \<^verbatim>\<open>"@id"\<close>, then the items walked.
\<close>

definition descriptor_of ::
  "'p \<Rightarrow> 'c \<Rightarrow> string \<Rightarrow> interface_entry \<Rightarrow> ('p, 'c) CommonInterface" where
  "descriptor_of pcb ccb n interf =
     forEach visit_item (items_of interf) (new_CommonInterface n (at_id interf) pcb ccb)"

text \<open>
  The collections of a descriptor hold exactly the names of the items of the entry's
  \<^verbatim>\<open>schema.contents\<close> of the matching \<^verbatim>\<open>"@type"\<close>.
\<close>

definition collections_match :: "('p, 'c) CommonInterface \<Rightarrow> interface_entry \<Rightarrow> bool" where
  "collections_match d interf \<longleftrightarrow>
     set (properties d) =
       item_name ` {item \<in> set (items_of interf). item_at_type item = Some ''Property''}
     \<and> set (commands d) =
       item_name ` {item \<in> set (items_of interf). item_at_type item = Some ''Command''}
     \<and> set (telemetry d) =
       item_name ` {item \<in> set (items_of interf). item_at_type item = Some ''Telemetry''}"

section \<open>parse on documents with null elements\<close>

text \<open>
  In an already-parsed JSON document an element of an array may be \<^verbatim>\<open>null\<close>, as a member
  may. The callbacks read \<^verbatim>\<open>interf["@type"]\<close> (line 8) and \<^verbatim>\<open>item["@type"]\<close> (line 15) with
  no guard, as line 12 reads \<^verbatim>\<open>interf.schema.contents\<close>: on a \<^verbatim>\<open>null\<close> element the read
  raises a \<^verbatim>\<open>TypeError\<close>. Here the elements of \<^verbatim>\<open>implements\<close> and of \<^verbatim>\<open>schema.contents\<close> are
  optional, \<open>None\<close> standing for \<^verbatim>\<open>null\<close> or \<^verbatim>\<open>undefined\<close>. An item that is present is a
  \<open>content_item\<close> as before, and a value that is present has the type that
  \<^verbatim>\<open>CapabilityModel\<close> declares for it.
\<close>

record interface_schema_js =
  contents_js :: "content_item option list option"

record interface_entry_js =
  at_type_js :: "string option"
  name_js :: "string option"
  at_id_js :: "string option"
  schema_js :: "interface_schema_js option"

record CapabilityModel_js =
  implements_js :: "interface_entry_js option list option"

text \<open>
  The object that \<^verbatim>\<open>parse\<close> returns, with its own properties, which are its keys, and
  its prototype (\<open>None\<close> for \<^verbatim>\<open>Object.prototype\<close>, which the literal \<^verbatim>\<open>{}\<close> starts with).
  The assignment \<^verbatim>\<open>res[k] = cInf\<close> creates or overwrites the own property \<open>k\<close>, except
  for \<open>k\<close> = \<^verbatim>\<open>"__proto__"\<close>: \<^verbatim>\<open>Object.prototype\<close> defines \<^verbatim>\<open>__proto__\<close> as an accessor, whose
  setter makes \<^verbatim>\<open>cInf\<close> the prototype of \<^verbatim>\<open>res\<close> and creates no own property.

  Modelled from the spec: \<^verbatim>\<open>CommonInterface\<close>, which is not among the sources, is taken
  to hold plain data fields and methods, no accessor, so that an assignment of another
  name creates an own property also when a descriptor has become the prototype.
\<close>

record ('p, 'c) InterfaceMap_js =
  own :: "string \<rightharpoonup> ('p, 'c) CommonInterface"
  prototype :: "('p, 'c) CommonInterface option"

definition empty_object :: "('p, 'c) InterfaceMap_js" where
  "empty_object = \<lparr>own = Map.empty, prototype = None\<rparr>"

definition assign ::
  "('p, 'c) InterfaceMap_js \<Rightarrow> string \<Rightarrow> ('p, 'c) CommonInterface \<Rightarrow> ('p, 'c) InterfaceMap_js" where
  "assign res k cInf =
     (if k = ''__proto__'' then res\<lparr>prototype := Some cInf\<rparr>
      else res\<lparr>own := (own res)(k \<mapsto> cInf)\<rparr>)"

text \<open>The callback of \<^verbatim>\<open>items.forEach\<close> (lines 14 to 24): line 15 raises on a \<^verbatim>\<open>null\<close> item.\<close>

definition visit_item_js ::
  "content_item option \<Rightarrow> ('p, 'c) CommonInterface \<Rightarrow> js_error + ('p, 'c) CommonInterface" where
  "visit_item_js item cInf =
     (case item of
        None \<Rightarrow> Inl TypeError
      | Some it \<Rightarrow> Inr (visit_item it cInf))"

text \<open>
  The callback of \<^verbatim>\<open>capabilityModel.implements.forEach\<close> (lines 7 to 29): line 8 raises on
  a \<^verbatim>\<open>null\<close> element, line 12 on an absent schema, and an error of the inner loop ends
  the callback before line 26.
\<close>

definition visit_interface_js ::
  "'p \<Rightarrow> 'c \<Rightarrow> interface_entry_js option \<Rightarrow> ('p, 'c) InterfaceMap_js \<Rightarrow>
   js_error + ('p, 'c) InterfaceMap_js" where
  "visit_interface_js pcb ccb element res =
     (case element of
        None \<Rightarrow> Inl TypeError
      | Some interf \<Rightarrow>
          if at_type_js interf = Some ''InterfaceInstance'' then
            (case name_js interf of
               None \<Rightarrow> Inr res
             | Some interfaceName \<Rightarrow>
                 if truthy (Some interfaceName) \<and> length interfaceName > 0 then
                   (let cInf = new_CommonInterface interfaceName (at_id_js interf) pcb ccb in
                    case schema_js interf of
                      None \<Rightarrow> Inl TypeError
                    | Some sch \<Rightarrow>
                        (case (case contents_js sch of
                                 None \<Rightarrow> Inr cInf
                               | Some items \<Rightarrow>
                                   if length items > 0
                                   then forEach_raising visit_item_js items cInf
                                   else Inr cInf) of
                           Inl e \<Rightarrow> Inl e
                         | Inr cInf' \<Rightarrow> Inr (assign res interfaceName cInf')))
                 else Inr res)
          else Inr res)"

definition parse_js ::
  "CapabilityModel_js option \<Rightarrow> 'p \<Rightarrow> 'c \<Rightarrow> js_error + ('p, 'c) InterfaceMap_js" where
  "parse_js capabilityModel pcb ccb =
     (case capabilityModel of
        None \<Rightarrow> Inr empty_object
      | Some cm \<Rightarrow>
          (case implements_js cm of
             None \<Rightarrow> Inr empty_object
           | Some ifs \<Rightarrow>
               if length ifs > 0
               then forEach_raising (visit_interface_js pcb ccb) ifs empty_object
               else Inr empty_object))"

subsection \<open>Vocabulary\<close>

text \<open>The elements of \<^verbatim>\<open>capabilityModel.implements\<close>; none when the model or the array is absent.\<close>

definition entries_js :: "CapabilityModel_js option \<Rightarrow> interface_entry_js option list" where
  "entries_js capabilityModel =
     (case capabilityModel of
        None \<Rightarrow> []
      | Some cm \<Rightarrow> (case implements_js cm of None \<Rightarrow> [] | Some ifs \<Rightarrow> ifs))"

text \<open>An entry, and an element of \<^verbatim>\<open>implements\<close>, that is an \<^verbatim>\<open>InterfaceInstance\<close> with the non-empty name \<open>n\<close>.\<close>

definition instance_named_js :: "interface_entry_js \<Rightarrow> string \<Rightarrow> bool" where
  "instance_named_js interf n =
     (at_type_js interf = Some ''InterfaceInstance'' \<and> name_js interf = Some n \<and> n \<noteq> [])"

definition element_named :: "string \<Rightarrow> interface_entry_js option \<Rightarrow> bool" where
  "element_named n element =
     (case element of None \<Rightarrow> False | Some interf \<Rightarrow> instance_named_js interf n)"

text \<open>The elements of an entry's \<^verbatim>\<open>schema.contents\<close>; none when the schema or its contents are absent.\<close>

definition items_js :: "interface_entry_js \<Rightarrow> content_item option list" where
  "items_js interf =
     (case schema_js interf of
        None \<Rightarrow> []
      | Some sch \<Rightarrow> (case contents_js sch of None \<Rightarrow> [] | Some items \<Rightarrow> items))"

text \<open>
  An element of \<^verbatim>\<open>implements\<close> at which the callback raises: a \<^verbatim>\<open>null\<close> element (line 8),
  or an \<^verbatim>\<open>InterfaceInstance\<close> with a non-empty name that carries no schema object (line
  12) or whose \<^verbatim>\<open>schema.contents\<close> holds a \<^verbatim>\<open>null\<close> element (line 15).
\<close>

definition raises_at :: "interface_entry_js option \<Rightarrow> bool" where
  "raises_at element =
     (case element of
        None \<Rightarrow> True
      | Some interf \<Rightarrow>
          at_type_js interf = Some ''InterfaceInstance'' \<and> truthy (name_js interf)
          \<and> (schema_js interf = None \<or> None \<in> set (items_js interf)))"

text \<open>The elements of an array that are not \<^verbatim>\<open>null\<close>, in order.\<close>

primrec present :: "'a option list \<Rightarrow> 'a list" where
  "present [] = []"
| "present (x # xs) = (case x of None \<Rightarrow> present xs | Some v \<Rightarrow> v # present xs)"

text \<open>
  The descriptor that \<^verbatim>\<open>parse\<close> builds for an interface instance named \<open>n\<close> whose
  contents hold no \<^verbatim>\<open>null\<close>: the constructor applied to the name and the \<^verbatim>\<open>"@id"\<close>, then
  the items walked.
\<close>

definition descriptor_js ::
  "'p \<Rightarrow> 'c \<Rightarrow> string \<Rightarrow> interface_entry_js \<Rightarrow> ('p, 'c) CommonInterface" where
  "descriptor_js pcb ccb n interf =
     forEach visit_item (present (items_js interf))
       (new_CommonInterface n (at_id_js interf) pcb ccb)"

subsection \<open>Documents without null elements\<close>

text \<open>
  A document of the first section as a document of this one, and a map from names to
  descriptors as an object: the binding of \<^verbatim>\<open>__proto__\<close> is the prototype, the others are
  the own properties.
\<close>

definition lift_entry :: "interface_entry \<Rightarrow> interface_entry_js" where
  "lift_entry interf =
     \<lparr>at_type_js = at_type interf, name_js = name interf, at_id_js = at_id interf,
      schema_js = map_option
        (\<lambda>sch. \<lparr>contents_js = map_option (map Some) (contents sch)\<rparr>) (schema interf)\<rparr>"

definition lift_model :: "CapabilityModel option \<Rightarrow> CapabilityModel_js option" where
  "lift_model capabilityModel =
     map_option
       (\<lambda>cm. \<lparr>implements_js = map_option (map (\<lambda>interf. Some (lift_entry interf))) (implements cm)\<rparr>)
       capabilityModel"

definition object_of :: "('p, 'c) InterfaceMap \<Rightarrow> ('p, 'c) InterfaceMap_js" where
  "object_of m = \<lparr>own = m(''__proto__'' := None), prototype = m ''__proto__''\<rparr>"

section \<open>parse with a log of its visits\<close>

text \<open>
  A visit is one invocation of a \<^verbatim>\<open>forEach\<close> callback: on the entry at an index of
  \<^verbatim>\<open>implements\<close>, or on the item at an index of the \<^verbatim>\<open>schema.contents\<close> of the entry at an
  index. \<^verbatim>\<open>forEach\<close> hands the callback the element and its index.
\<close>

datatype visit = VisitEntry nat | VisitItem nat nat

text \<open>
  The same walk as \<^verbatim>\<open>parse\<close>, statement by statement, with every callback invocation
  appended to a log; the log is kept when the walk ends with an error.
\<close>

fun forEach_items_traced ::
  "nat \<Rightarrow> nat \<Rightarrow> content_item list \<Rightarrow> ('p, 'c) CommonInterface \<times> visit list \<Rightarrow>
   ('p, 'c) CommonInterface \<times> visit list" where
  "forEach_items_traced i j [] (cInf, log) = (cInf, log)"
| "forEach_items_traced i j (item # items) (cInf, log) =
     forEach_items_traced i (Suc j) items (visit_item item cInf, log @ [VisitItem i j])"

definition visit_interface_traced ::
  "'p \<Rightarrow> 'c \<Rightarrow> nat \<Rightarrow> interface_entry \<Rightarrow> ('p, 'c) InterfaceMap \<times> visit list \<Rightarrow>
   (js_error + ('p, 'c) InterfaceMap) \<times> visit list" where
  "visit_interface_traced pcb ccb i interf state =
     (case state of (res, log0) \<Rightarrow>
      let log = log0 @ [VisitEntry i] in
      if at_type interf = Some ''InterfaceInstance'' then
        (case name interf of
           None \<Rightarrow> (Inr res, log)
         | Some interfaceName \<Rightarrow>
             if truthy (Some interfaceName) \<and> length interfaceName > 0 then
               (let cInf = new_CommonInterface interfaceName (at_id interf) pcb ccb in
                case schema interf of
                  None \<Rightarrow> (Inl TypeError, log)
                | Some sch \<Rightarrow>
                    (case (case contents sch of
                             None \<Rightarrow> (cInf, log)
                           | Some items \<Rightarrow>
                               if length items > 0
                               then forEach_items_traced i 0 items (cInf, log)
                               else (cInf, log)) of
                       (cInf', log') \<Rightarrow> (Inr (res(interfaceName \<mapsto> cInf')), log')))
             else (Inr res, log))
      else (Inr res, log))"

fun forEach_entries_traced ::
  "'p \<Rightarrow> 'c \<Rightarrow> nat \<Rightarrow> interface_entry list \<Rightarrow> ('p, 'c) InterfaceMap \<times> visit list \<Rightarrow>
   (js_error + ('p, 'c) InterfaceMap) \<times> visit list" where
  "forEach_entries_traced pcb ccb i [] (res, log) = (Inr res, log)"
| "forEach_entries_traced pcb ccb i (interf # rest) (res, log) =
     (case visit_interface_traced pcb ccb i interf (res, log) of
        (Inl e, log') \<Rightarrow> (Inl e, log')
      | (Inr res', log') \<Rightarrow> forEach_entries_traced pcb ccb (Suc i) rest (res', log'))"

definition parse_traced ::
  "CapabilityModel option \<Rightarrow> 'p \<Rightarrow> 'c \<Rightarrow> (js_error + ('p, 'c) InterfaceMap) \<times> visit list" where
  "parse_traced capabilityModel pcb ccb =
     (case capabilityModel of
        None \<Rightarrow> (Inr Map.empty, [])
      | Some cm \<Rightarrow>
          (case implements cm of
             None \<Rightarrow> (Inr Map.empty, [])
           | Some ifs \<Rightarrow>
               if length ifs > 0
               then forEach_entries_traced pcb ccb 0 ifs (Map.empty, [])
               else (Inr Map.empty, [])))"

text \<open>An entry whose \<^verbatim>\<open>"@type"\<close> is \<^verbatim>\<open>'InterfaceInstance'\<close> and whose name is a non-empty string.\<close>

definition is_instance :: "interface_entry \<Rightarrow> bool" where
  "is_instance interf = (at_type interf = Some ''InterfaceInstance'' \<and> truthy (name interf))"

text \<open>
  The walk in closed form: every entry in order up to the first one that lacks its
  schema, each interface instance followed by the items of its contents.
\<close>

fun expected_visits :: "nat \<Rightarrow> interface_entry list \<Rightarrow> visit list" where
  "expected_visits i [] = []"
| "expected_visits i (interf # rest) =
     VisitEntry i #
       (if lacks_schema interf then []
        else (if is_instance interf then map (VisitItem i) [0..<length (items_of interf)] else [])
             @ expected_visits (Suc i) rest)"

section \<open>parse on a store of objects\<close>

text \<open>
  JavaScript objects are shared and mutable. To state what \<^verbatim>\<open>parse\<close> writes, the same
  function is given once more over an explicit store: a list of objects addressed by
  their index, in which the document, the result \<^verbatim>\<open>res\<close> and every \<^verbatim>\<open>cInf\<close> are objects
  that refer to one another by reference. An object literal and a \<^verbatim>\<open>new\<close> expression
  allocate at the end of the store; a method of \<^verbatim>\<open>cInf\<close> and the assignment
  \<^verbatim>\<open>res[interfaceName] = cInf\<close> update the store at the reference they are applied to.
\<close>

type_synonym ref = nat

text \<open>
  The objects of the store. A capability model holds the reference of its \<^verbatim>\<open>implements\<close>
  array, an entry its \<^verbatim>\<open>"@type"\<close>, \<^verbatim>\<open>name\<close>, \<^verbatim>\<open>"@id"\<close> and the reference of its schema, a
  schema the reference of its \<^verbatim>\<open>contents\<close> array, an item its \<^verbatim>\<open>"@type"\<close>, \<^verbatim>\<open>name\<close> and
  \<^verbatim>\<open>writable\<close>; an absent member is \<open>None\<close>. An array holds the references of its
  elements, an instance of \<^verbatim>\<open>CommonInterface\<close> its state, and the result object the
  reference it binds to each name.
\<close>

datatype ('p, 'c) heap_object =
    ModelObject "ref option"
  | ArrayObject "ref list"
  | EntryObject "string option" "string option" "string option" "ref option"
  | SchemaObject "ref option"
  | ItemObject "string option" string "bool option"
  | InterfaceObject "('p, 'c) CommonInterface"
  | MapObject "string \<rightharpoonup> ref"

type_synonym ('p, 'c) heap = "('p, 'c) heap_object list"

text \<open>
  How a statement ends: normally, with an error raised, or \<open>IllTyped\<close> when a reference
  does not hold an object of the declared type (which the types of the source exclude).
\<close>

datatype status = Normal | Raised js_error | IllTyped

definition deref :: "('p, 'c) heap \<Rightarrow> ref \<Rightarrow> ('p, 'c) heap_object option" where
  "deref h r = (if r < length h then Some (h ! r) else None)"

text \<open>
  \<^verbatim>\<open>Array.prototype.forEach\<close> on the array at reference \<open>a\<close>: the length is read once,
  each element is read from the store as it stands when its turn comes, and an index
  that is no longer present is skipped.
\<close>

primrec forEach_from ::
  "(ref \<Rightarrow> ('p, 'c) heap \<Rightarrow> status \<times> ('p, 'c) heap) \<Rightarrow> ref \<Rightarrow> nat \<Rightarrow> nat \<Rightarrow>
   ('p, 'c) heap \<Rightarrow> status \<times> ('p, 'c) heap" where
  "forEach_from f a k 0 h = (Normal, h)"
| "forEach_from f a k (Suc n) h =
     (case deref h a of
        Some (ArrayObject rs) \<Rightarrow>
          if k < length rs then
            (case f (rs ! k) h of
               (Normal, h') \<Rightarrow> forEach_from f a (Suc k) n h'
             | (st, h') \<Rightarrow> (st, h'))
          else forEach_from f a (Suc k) n h
      | _ \<Rightarrow> (IllTyped, h))"

definition forEach_heap ::
  "(ref \<Rightarrow> ('p, 'c) heap \<Rightarrow> status \<times> ('p, 'c) heap) \<Rightarrow> ref \<Rightarrow>
   ('p, 'c) heap \<Rightarrow> status \<times> ('p, 'c) heap" where
  "forEach_heap f a h =
     (case deref h a of
        Some (ArrayObject rs) \<Rightarrow> forEach_from f a 0 (length rs) h
      | _ \<Rightarrow> (IllTyped, h))"

text \<open>The callback of \<^verbatim>\<open>items.forEach\<close> (lines 14 to 24); the methods update \<^verbatim>\<open>cInf\<close> in place.\<close>

definition visit_item_heap :: "ref \<Rightarrow> ref \<Rightarrow> ('p, 'c) heap \<Rightarrow> status \<times> ('p, 'c) heap" where
  "visit_item_heap cInf item h =
     (case deref h item of
        Some (ItemObject ty n w) \<Rightarrow>
          (case deref h cInf of
             Some (InterfaceObject d) \<Rightarrow>
               if truthy ty \<and> ty = Some ''Property''
                 then (Normal, h[cInf := InterfaceObject (addProperty n w d)])
               else if truthy ty \<and> ty = Some ''Command''
                 then (Normal, h[cInf := InterfaceObject (addCommand n d)])
               else if truthy ty \<and> ty = Some ''Telemetry''
                 then (Normal, h[cInf := InterfaceObject (addTelemetry n d)])
               else (Normal, h)
           | _ \<Rightarrow> (IllTyped, h))
      | _ \<Rightarrow> (IllTyped, h))"

text \<open>Lines 12 to 25: the items are walked when \<^verbatim>\<open>contents\<close> is present and not empty.\<close>

definition walk_contents :: "ref \<Rightarrow> ref option \<Rightarrow> ('p, 'c) heap \<Rightarrow> status \<times> ('p, 'c) heap" where
  "walk_contents cInf cont h =
     (case cont of
        None \<Rightarrow> (Normal, h)
      | Some items \<Rightarrow>
          (case deref h items of
             Some (ArrayObject rs) \<Rightarrow>
               if length rs > 0 then forEach_heap (visit_item_heap cInf) items h
               else (Normal, h)
           | _ \<Rightarrow> (IllTyped, h)))"

text \<open>Line 26: \<^verbatim>\<open>res[interfaceName] = cInf\<close>.\<close>

definition store_interface ::
  "ref \<Rightarrow> string \<Rightarrow> ref \<Rightarrow> ('p, 'c) heap \<Rightarrow> status \<times> ('p, 'c) heap" where
  "store_interface res interfaceName cInf h =
     (case deref h res of
        Some (MapObject m) \<Rightarrow> (Normal, h[res := MapObject (m(interfaceName \<mapsto> cInf))])
      | _ \<Rightarrow> (IllTyped, h))"

text \<open>The callback of \<^verbatim>\<open>capabilityModel.implements.forEach\<close> (lines 7 to 29).\<close>

definition visit_interface_heap ::
  "'p \<Rightarrow> 'c \<Rightarrow> ref \<Rightarrow> ref \<Rightarrow> ('p, 'c) heap \<Rightarrow> status \<times> ('p, 'c) heap" where
  "visit_interface_heap pcb ccb res interf h =
     (case deref h interf of
        Some (EntryObject ty nm ident sch) \<Rightarrow>
          if ty = Some ''InterfaceInstance'' then
            (case nm of
               None \<Rightarrow> (Normal, h)
             | Some interfaceName \<Rightarrow>
                 if truthy (Some interfaceName) \<and> length interfaceName > 0 then
                   (let cInf = length h;
                        h1 = h @ [InterfaceObject (new_CommonInterface interfaceName ident pcb ccb)]
                    in case sch of
                         None \<Rightarrow> (Raised TypeError, h1)
                       | Some s \<Rightarrow>
                           (case deref h1 s of
                              Some (SchemaObject cont) \<Rightarrow>
                                (case walk_contents cInf cont h1 of
                                   (Normal, h2) \<Rightarrow> store_interface res interfaceName cInf h2
                                 | (st, h2) \<Rightarrow> (st, h2))
                            | _ \<Rightarrow> (IllTyped, h1)))
                 else (Normal, h))
          else (Normal, h)
      | _ \<Rightarrow> (IllTyped, h))"

text \<open>
  \<^verbatim>\<open>parse\<close>: the outcome, the reference of \<^verbatim>\<open>res\<close> (returned when the outcome is normal)
  and the store the call leaves behind.
\<close>

definition parse_heap ::
  "('p, 'c) heap \<Rightarrow> ref option \<Rightarrow> 'p \<Rightarrow> 'c \<Rightarrow> status \<times> ref \<times> ('p, 'c) heap" where
  "parse_heap h capabilityModel pcb ccb =
     (let res = length h; h0 = h @ [MapObject Map.empty] in
      case capabilityModel of
        None \<Rightarrow> (Normal, res, h0)
      | Some cm \<Rightarrow>
          (case deref h0 cm of
             Some (ModelObject imp) \<Rightarrow>
               (case imp of
                  None \<Rightarrow> (Normal, res, h0)
                | Some a \<Rightarrow>
                    (case deref h0 a of
                       Some (ArrayObject rs) \<Rightarrow>
                         if length rs > 0 then
                           (case forEach_heap (visit_interface_heap pcb ccb res) a h0 of
                              (st, h') \<Rightarrow> (st, res, h'))
                         else (Normal, res, h0)
                     | _ \<Rightarrow> (IllTyped, res, h0)))
           | _ \<Rightarrow> (IllTyped, res, h0)))"

text \<open>The objects that \<^verbatim>\<open>parse\<close> constructs: the result map and the descriptors.\<close>

definition is_constructed :: "('p, 'c) heap_object \<Rightarrow> bool" where
  "is_constructed obj =
     (case obj of InterfaceObject d \<Rightarrow> True | MapObject m \<Rightarrow> True | _ \<Rightarrow> False)"

subsection \<open>The document and the result that a store holds\<close>

text \<open>
  The document value at a reference of the store, when the store holds a document of
  the declared type there, and the map from names to descriptors at the reference of a
  result.
\<close>

definition item_at :: "('p, 'c) heap \<Rightarrow> ref \<Rightarrow> content_item option" where
  "item_at h r =
     (case deref h r of
        Some (ItemObject ty n w) \<Rightarrow> Some \<lparr>item_at_type = ty, item_name = n, writable = w\<rparr>
      | _ \<Rightarrow> None)"

definition items_at :: "('p, 'c) heap \<Rightarrow> ref \<Rightarrow> content_item list option" where
  "items_at h a =
     (case deref h a of
        Some (ArrayObject rs) \<Rightarrow> those (map (item_at h) rs)
      | _ \<Rightarrow> None)"

definition schema_at :: "('p, 'c) heap \<Rightarrow> ref \<Rightarrow> interface_schema option" where
  "schema_at h r =
     (case deref h r of
        Some (SchemaObject cont) \<Rightarrow>
          (case cont of
             None \<Rightarrow> Some \<lparr>contents = None\<rparr>
           | Some a \<Rightarrow> map_option (\<lambda>items. \<lparr>contents = Some items\<rparr>) (items_at h a))
      | _ \<Rightarrow> None)"

definition entry_at :: "('p, 'c) heap \<Rightarrow> ref \<Rightarrow> interface_entry option" where
  "entry_at h r =
     (case deref h r of
        Some (EntryObject ty nm ident sch) \<Rightarrow>
          (case sch of
             None \<Rightarrow> Some \<lparr>at_type = ty, name = nm, at_id = ident, schema = None\<rparr>
           | Some s \<Rightarrow>
               map_option (\<lambda>sc. \<lparr>at_type = ty, name = nm, at_id = ident, schema = Some sc\<rparr>)
                 (schema_at h s))
      | _ \<Rightarrow> None)"

definition model_at :: "('p, 'c) heap \<Rightarrow> ref \<Rightarrow> CapabilityModel option" where
  "model_at h r =
     (case deref h r of
        Some (ModelObject imp) \<Rightarrow>
          (case imp of
             None \<Rightarrow> Some \<lparr>implements = None\<rparr>
           | Some a \<Rightarrow>
               (case deref h a of
                  Some (ArrayObject rs) \<Rightarrow>
                    map_option (\<lambda>es. \<lparr>implements = Some es\<rparr>) (those (map (entry_at h) rs))
                | _ \<Rightarrow> None))
      | _ \<Rightarrow> None)"

definition document_at :: "('p, 'c) heap \<Rightarrow> ref option \<Rightarrow> CapabilityModel option option" where
  "document_at h capabilityModel =
     (case capabilityModel of
        None \<Rightarrow> Some None
      | Some r \<Rightarrow> map_option Some (model_at h r))"

definition result_at :: "('p, 'c) heap \<Rightarrow> ref \<Rightarrow> ('p, 'c) InterfaceMap option" where
  "result_at h res =
     (case deref h res of
        Some (MapObject m) \<Rightarrow>
          Some (\<lambda>n. case m n of
                      None \<Rightarrow> None
                    | Some c \<Rightarrow>
                        (case deref h c of Some (InterfaceObject d) \<Rightarrow> Some d | _ \<Rightarrow> None))
      | _ \<Rightarrow> None)"

subsection \<open>Relations between stores\<close>

text \<open>
  \<open>kept h h'\<close>: every object of \<open>h\<close> is in \<open>h'\<close> at its reference, unchanged.
  \<open>extends n h h'\<close>: \<open>h'\<close> is no shorter than \<open>h\<close>, agrees with it below \<open>n\<close>, and holds
  only constructed objects from \<open>n\<close> on. \<open>map_inv res h\<close>: \<open>res\<close> is a result map whose
  values refer to descriptors.
\<close>

definition constructed_above :: "nat \<Rightarrow> ('p, 'c) heap \<Rightarrow> bool" where
  "constructed_above n h \<longleftrightarrow> n \<le> length h \<and> (\<forall>obj\<in>set (drop n h). is_constructed obj)"

definition extends :: "nat \<Rightarrow> ('p, 'c) heap \<Rightarrow> ('p, 'c) heap \<Rightarrow> bool" where
  "extends n h h' \<longleftrightarrow>
     length h \<le> length h' \<and> take n h' = take n h \<and> constructed_above n h'"

definition kept :: "('p, 'c) heap \<Rightarrow> ('p, 'c) heap \<Rightarrow> bool" where
  "kept h h' \<longleftrightarrow> take (length h) h' = h"

definition map_inv :: "ref \<Rightarrow> ('p, 'c) heap \<Rightarrow> bool" where
  "map_inv res h \<longleftrightarrow>
     (\<exists>m. deref h res = Some (MapObject m)
        \<and> (\<forall>k c. m k = Some c \<longrightarrow> c \<noteq> res \<and> (\<exists>d. deref h c = Some (InterfaceObject d))))"

section \<open>The client facade\<close>

text \<open>
  The operations that \<^verbatim>\<open>src/types/interfaces.ts\<close> declares with a \<^verbatim>\<open>Result\<close>: every
  overload of \<^verbatim>\<open>IIoTCClient\<close> (lines 61 to 107), \<^verbatim>\<open>IIoTCProperty\<close> (lines 151 to 154) and
  \<^verbatim>\<open>IIoTCCommand\<close> (lines 158 to 165), with its parameters in order and its return
  type. A parameter is named after its declaration; \<open>arg_callback\<close> is the parameter
  \<^verbatim>\<open>callback: SendCallback\<close>, and the optional parameters of \<^verbatim>\<open>sendState\<close> and
  \<^verbatim>\<open>sendEvent\<close> are parameters of their own.
\<close>

datatype declaring_interface = IIoTCClient | IIoTCProperty | IIoTCCommand

datatype parameter =
    arg_payload | arg_interfaceName | arg_properties | arg_timestamp | arg_status | arg_message
  | arg_callback | arg_timestamp_opt | arg_callback_opt

datatype return_type = Promise_Result | Void | Promise_Result_or_Void

record signature =
  declared_in :: declaring_interface
  operation :: string
  parameters :: "parameter list"
  returns :: return_type

definition sig ::
  "declaring_interface \<Rightarrow> string \<Rightarrow> parameter list \<Rightarrow> return_type \<Rightarrow> signature" where
  "sig i n ps r = \<lparr>declared_in = i, operation = n, parameters = ps, returns = r\<rparr>"

definition declared_signatures :: "signature list" where
  "declared_signatures =
     [sig IIoTCClient ''disconnect'' [] Promise_Result,
      sig IIoTCClient ''disconnect'' [arg_callback] Void,
      sig IIoTCClient ''connect'' [] Promise_Result,
      sig IIoTCClient ''connect'' [arg_callback] Void,
      sig IIoTCClient ''sendTelemetry'' [arg_payload, arg_interfaceName] Promise_Result,
      sig IIoTCClient ''sendTelemetry'' [arg_payload, arg_interfaceName, arg_callback] Void,
      sig IIoTCClient ''sendTelemetry'' [arg_payload, arg_interfaceName, arg_properties] Promise_Result,
      sig IIoTCClient ''sendTelemetry'' [arg_payload, arg_interfaceName, arg_properties, arg_callback] Void,
      sig IIoTCClient ''sendTelemetry'' [arg_payload, arg_interfaceName, arg_timestamp] Promise_Result,
      sig IIoTCClient ''sendTelemetry'' [arg_payload, arg_interfaceName, arg_timestamp, arg_callback] Void,
      sig IIoTCClient ''sendTelemetry'' [arg_payload, arg_interfaceName, arg_properties, arg_timestamp]
        Promise_Result,
      sig IIoTCClient ''sendTelemetry''
        [arg_payload, arg_interfaceName, arg_properties, arg_timestamp, arg_callback] Void,
      sig IIoTCClient ''sendState'' [arg_payload, arg_timestamp_opt, arg_callback_opt]
        Promise_Result_or_Void,
      sig IIoTCClient ''sendEvent'' [arg_payload, arg_timestamp_opt, arg_callback_opt]
        Promise_Result_or_Void,
      sig IIoTCClient ''sendProperty'' [arg_payload, arg_interfaceName] Promise_Result,
      sig IIoTCClient ''sendProperty'' [arg_payload, arg_interfaceName, arg_callback] Void,
      sig IIoTCProperty ''report'' [arg_status] Promise_Result,
      sig IIoTCProperty ''report'' [arg_status, arg_callback] Void,
      sig IIoTCProperty ''report'' [arg_status, arg_message] Promise_Result,
      sig IIoTCProperty ''report'' [arg_status, arg_message, arg_callback] Void,
      sig IIoTCCommand ''acknowledge'' [arg_status] Promise_Result,
      sig IIoTCCommand ''acknowledge'' [arg_status, arg_message] Promise_Result,
      sig IIoTCCommand ''acknowledge'' [arg_status, arg_callback] Void,
      sig IIoTCCommand ''acknowledge'' [arg_status, arg_message, arg_callback] Void,
      sig IIoTCCommand ''update'' [arg_status] Promise_Result,
      sig IIoTCCommand ''update'' [arg_status, arg_message] Promise_Result,
      sig IIoTCCommand ''update'' [arg_status, arg_callback] Void,
      sig IIoTCCommand ''update'' [arg_status, arg_message, arg_callback] Void]"

text \<open>The operations that claim C4 names.\<close>

definition client_operations :: "string list" where
  "client_operations =
     [''connect'', ''disconnect'', ''sendTelemetry'', ''sendProperty'', ''acknowledge'',
      ''update'', ''report'']"

text \<open>
  The promise form of an operation takes no callback and returns \<^verbatim>\<open>Promise<Result>\<close>; the
  callback form returns \<^verbatim>\<open>void\<close> and takes a \<^verbatim>\<open>SendCallback\<close> last. An operation is
  declared in both forms when it has an overload of each form and every overload of it
  has its counterpart with the same parameters before the callback.
\<close>

definition is_promise_form :: "signature \<Rightarrow> bool" where
  "is_promise_form sg \<longleftrightarrow>
     returns sg = Promise_Result \<and> arg_callback \<notin> set (parameters sg)
     \<and> arg_callback_opt \<notin> set (parameters sg)"

definition is_callback_form :: "signature \<Rightarrow> bool" where
  "is_callback_form sg \<longleftrightarrow>
     returns sg = Void \<and> parameters sg \<noteq> [] \<and> last (parameters sg) = arg_callback"

definition callback_form_of :: "signature \<Rightarrow> signature" where
  "callback_form_of sg = sg\<lparr>parameters := parameters sg @ [arg_callback], returns := Void\<rparr>"

definition promise_form_of :: "signature \<Rightarrow> signature" where
  "promise_form_of sg = sg\<lparr>parameters := butlast (parameters sg), returns := Promise_Result\<rparr>"

definition in_both_forms :: "string \<Rightarrow> bool" where
  "in_both_forms n \<longleftrightarrow>
     (\<exists>sg\<in>set declared_signatures. operation sg = n \<and> is_promise_form sg)
     \<and> (\<exists>sg\<in>set declared_signatures. operation sg = n \<and> is_callback_form sg)
     \<and> (\<forall>sg\<in>set declared_signatures. operation sg = n \<longrightarrow>
           (is_promise_form sg \<and> callback_form_of sg \<in> set declared_signatures)
           \<or> (is_callback_form sg \<and> promise_form_of sg \<in> set declared_signatures))"

text \<open>
  Modelled from the spec: the class that implements \<^verbatim>\<open>IIoTCClient\<close> is not among the
  sources. The spec calls it a thin client object that forwards calls to the injected
  transport and provisioning implementations and normalizes the callback and promise
  call styles. An operation forwards the request to the injected implementation, which
  completes with an error or a \<^verbatim>\<open>Result\<close>; called without a callback it returns a promise
  settled with that outcome, called with one it invokes the callback with
  \<^verbatim>\<open>(err, result)\<close>, as \<^verbatim>\<open>SendCallback\<close> is declared (line 24). \<open>delivered\<close> reads the
  outcome that either style hands to the caller.
\<close>

datatype ('e, 'r) delivery = Promise_settled "'e + 'r" | Callback_invoked "'e option" "'r option"

definition facade_call ::
  "('q \<Rightarrow> 'e + 'r) \<Rightarrow> 'q \<Rightarrow> bool \<Rightarrow> ('e, 'r) delivery" where
  "facade_call implementation request with_callback =
     (let outcome = implementation request in
      if with_callback then
        (case outcome of
           Inl err \<Rightarrow> Callback_invoked (Some err) None
         | Inr result \<Rightarrow> Callback_invoked None (Some result))
      else Promise_settled outcome)"

definition delivered :: "('e, 'r) delivery \<Rightarrow> ('e + 'r) option" where
  "delivered d =
     (case d of
        Promise_settled outcome \<Rightarrow> Some outcome
      | Callback_invoked (Some err) r \<Rightarrow> Some (Inl err)
      | Callback_invoked None (Some result) \<Rightarrow> Some (Inr result)
      | Callback_invoked None None \<Rightarrow> None)"

section \<open>Example documents\<close>

text \<open>
  A sensor interface with one telemetry value, one property, one command and one item
  without \<^verbatim>\<open>"@type"\<close>, and an entry of the same name whose schema has no contents.
\<close>

definition item_temperature :: content_item where
  "item_temperature =
     \<lparr>item_at_type = Some ''Telemetry'', item_name = ''temperature'', writable = None\<rparr>"

definition item_target :: content_item where
  "item_target =
     \<lparr>item_at_type = Some ''Property'', item_name = ''target'', writable = Some True\<rparr>"

definition item_reboot :: content_item where
  "item_reboot =
     \<lparr>item_at_type = Some ''Command'', item_name = ''reboot'', writable = None\<rparr>"

definition item_untyped :: content_item where
  "item_untyped = \<lparr>item_at_type = None, item_name = ''note'', writable = None\<rparr>"

definition entry_sensor :: interface_entry where
  "entry_sensor =
     \<lparr>at_type = Some ''InterfaceInstance'', name = Some ''sensor'',
      at_id = Some ''urn:sensor:1'',
      schema = Some \<lparr>contents =
        Some [item_temperature, item_target, item_reboot, item_untyped]\<rparr>\<rparr>"

definition entry_bare :: interface_entry where
  "entry_bare =
     \<lparr>at_type = Some ''InterfaceInstance'', name = Some ''sensor'',
      at_id = Some ''urn:sensor:2'', schema = Some \<lparr>contents = None\<rparr>\<rparr>"

definition model_sensor :: "CapabilityModel option" where
  "model_sensor = Some \<lparr>implements = Some [entry_bare, entry_sensor]\<rparr>"

text \<open>
  A later entry of the same name with one property, an entry that is no interface
  instance, and documents that combine them.
\<close>

definition item_mode :: content_item where
  "item_mode = \<lparr>item_at_type = Some ''Property'', item_name = ''mode'', writable = None\<rparr>"

definition entry_late :: interface_entry where
  "entry_late =
     \<lparr>at_type = Some ''InterfaceInstance'', name = Some ''sensor'',
      at_id = Some ''urn:sensor:3'', schema = Some \<lparr>contents = Some [item_mode]\<rparr>\<rparr>"

definition entry_foreign :: interface_entry where
  "entry_foreign =
     \<lparr>at_type = Some ''Interface'', name = Some ''extra'',
      at_id = None, schema = Some \<lparr>contents = Some [item_mode]\<rparr>\<rparr>"

definition model_overwritten :: "CapabilityModel option" where
  "model_overwritten = Some \<lparr>implements = Some [entry_bare, entry_late, entry_foreign]\<rparr>"

subsection \<open>Example documents with null elements\<close>

text \<open>
  The entries above as entries of a document whose arrays may hold \<^verbatim>\<open>null\<close>, an entry
  without a schema object, an entry whose contents hold a \<^verbatim>\<open>null\<close>, and an entry named
  \<^verbatim>\<open>__proto__\<close>.
\<close>

definition entry_sensor_js :: interface_entry_js where
  "entry_sensor_js =
     \<lparr>at_type_js = Some ''InterfaceInstance'', name_js = Some ''sensor'',
      at_id_js = Some ''urn:sensor:1'',
      schema_js = Some \<lparr>contents_js =
        Some [Some item_temperature, Some item_target, Some item_reboot, Some item_untyped]\<rparr>\<rparr>"

definition entry_bare_js :: interface_entry_js where
  "entry_bare_js =
     \<lparr>at_type_js = Some ''InterfaceInstance'', name_js = Some ''sensor'',
      at_id_js = Some ''urn:sensor:2'', schema_js = Some \<lparr>contents_js = None\<rparr>\<rparr>"

definition entry_late_js :: interface_entry_js where
  "entry_late_js =
     \<lparr>at_type_js = Some ''InterfaceInstance'', name_js = Some ''sensor'',
      at_id_js = Some ''urn:sensor:3'', schema_js = Some \<lparr>contents_js = Some [Some item_mode]\<rparr>\<rparr>"

definition entry_no_schema_js :: interface_entry_js where
  "entry_no_schema_js =
     \<lparr>at_type_js = Some ''InterfaceInstance'', name_js = Some ''info'',
      at_id_js = None, schema_js = None\<rparr>"

definition entry_null_item_js :: interface_entry_js where
  "entry_null_item_js =
     \<lparr>at_type_js = Some ''InterfaceInstance'', name_js = Some ''probe'',
      at_id_js = None, schema_js = Some \<lparr>contents_js = Some [Some item_mode, None]\<rparr>\<rparr>"

definition entry_proto_js :: interface_entry_js where
  "entry_proto_js =
     \<lparr>at_type_js = Some ''InterfaceInstance'', name_js = Some ''__proto__'',
      at_id_js = None, schema_js = Some \<lparr>contents_js = None\<rparr>\<rparr>"

definition model_sensor_js :: "CapabilityModel_js option" where
  "model_sensor_js = Some \<lparr>implements_js = Some [Some entry_bare_js, Some entry_sensor_js]\<rparr>"

definition model_null_item_js :: "CapabilityModel_js option" where
  "model_null_item_js = Some \<lparr>implements_js = Some [Some entry_sensor_js, Some entry_null_item_js]\<rparr>"

subsection \<open>Example stores\<close>

text \<open>One document, an interface instance with one property, laid out in two stores.\<close>

definition heap_late :: "(unit, unit) heap" where
  "heap_late =
     [ModelObject (Some 1), ArrayObject [2],
      EntryObject (Some ''InterfaceInstance'') (Some ''sensor'') (Some ''urn:sensor:3'') (Some 3),
      SchemaObject (Some 4), ArrayObject [5],
      ItemObject (Some ''Property'') ''mode'' None]"

definition heap_late_moved :: "(unit, unit) heap" where
  "heap_late_moved =
     [ItemObject (Some ''Property'') ''mode'' None, ArrayObject [0], SchemaObject (Some 1),
      EntryObject (Some ''InterfaceInstance'') (Some ''sensor'') (Some ''urn:sensor:3'') (Some 2),
      ArrayObject [3], ModelObject (Some 4)]"

definition model_late :: "CapabilityModel option" where
  "model_late = Some \<lparr>implements = Some [entry_late]\<rparr>"

text \<open>An injected implementation that refuses one request and completes the others.\<close>

definition sample_transport :: "string \<Rightarrow> string + nat" where
  "sample_transport request = (if request = ''refused'' then Inl ''not connected'' else Inr 200)"

section \<open>Properties of the loops\<close>

lemmas eval_defs =
  parse_def visit_interface_def visit_item_def entries_def lacks_schema_def
  instance_named_def items_of_def names_of_type_def descriptor_of_def
  new_CommonInterface_def addProperty_def addCommand_def addTelemetry_def truthy_def

lemma truthy_Some [simp]: "truthy (Some s) = (s \<noteq> [])"
  by (simp add: truthy_def)

lemma truthy_None [simp]: "truthy None = False"
  by (simp add: truthy_def)

lemma find_None_all: "find P xs = None \<longleftrightarrow> (\<forall>x\<in>set xs. \<not> P x)"
  by (induction xs) auto

lemma find_Some_holds: "find P xs = Some x \<Longrightarrow> P x \<and> x \<in> set xs"
  by (induction xs) (auto split: if_splits)

lemma find_app:
  "find P (xs @ ys) = (case find P xs of None \<Rightarrow> find P ys | Some x \<Rightarrow> Some x)"
  by (induction xs) auto

lemma find_last_match:
  "P x \<Longrightarrow> \<forall>z\<in>set zs. \<not> P z \<Longrightarrow> find P (rev (ys @ x # zs)) = Some x"
  by (auto simp: find_app find_None_all split: option.splits dest: find_Some_holds)

lemma visit_interface_lacks:
  "lacks_schema interf \<Longrightarrow> visit_interface pcb ccb interf res = Inl TypeError"
  by (auto simp: lacks_schema_def visit_interface_def truthy_def split: option.splits)

lemma visit_interface_named:
  "instance_named interf n \<Longrightarrow> \<not> lacks_schema interf \<Longrightarrow>
   visit_interface pcb ccb interf res = Inr (res(n \<mapsto> descriptor_of pcb ccb n interf))"
  by (auto simp: lacks_schema_def instance_named_def visit_interface_def descriptor_of_def
      items_of_def Let_def split: option.splits)

lemma visit_interface_other:
  "\<forall>n. \<not> instance_named interf n \<Longrightarrow> visit_interface pcb ccb interf res = Inr res"
  by (auto simp: instance_named_def visit_interface_def split: option.splits)

lemma instance_named_unique:
  "instance_named interf n \<Longrightarrow> instance_named interf m \<Longrightarrow> n = m"
  by (simp add: instance_named_def)

lemma forEach_raising_snoc:
  "forEach_raising f (xs @ [x]) s =
     (case forEach_raising f xs s of Inl e \<Rightarrow> Inl e | Inr s' \<Rightarrow> f x s')"
  by (induction xs arbitrary: s) (auto split: sum.splits)

lemma loop_raises_iff:
  "(\<exists>e. forEach_raising (visit_interface pcb ccb) xs res = Inl e) \<longleftrightarrow>
   (\<exists>interf\<in>set xs. lacks_schema interf)"
proof (induction xs arbitrary: res)
  case Nil
  then show ?case by simp
next
  case (Cons x xs)
  show ?case
  proof (cases "lacks_schema x")
    case True
    then show ?thesis by (simp add: visit_interface_lacks)
  next
    case False
    show ?thesis
    proof (cases "\<exists>n. instance_named x n")
      case True
      then obtain n where "instance_named x n" ..
      with False Cons.IH show ?thesis by (simp add: visit_interface_named)
    next
      case False
      with \<open>\<not> lacks_schema x\<close> Cons.IH show ?thesis by (simp add: visit_interface_other)
    qed
  qed
qed

text \<open>After the loop a name is bound by the last interface instance that carries it.\<close>

lemma loop_result:
  "forEach_raising (visit_interface pcb ccb) xs res = Inr res' \<Longrightarrow>
   res' n = (case find (\<lambda>interf. instance_named interf n) (rev xs) of
               None \<Rightarrow> res n
             | Some interf \<Rightarrow> Some (descriptor_of pcb ccb n interf))"
proof (induction xs arbitrary: res' rule: rev_induct)
  case Nil
  then show ?case by simp
next
  case (snoc x xs)
  from snoc.prems obtain mid where
    mid: "forEach_raising (visit_interface pcb ccb) xs res = Inr mid"
    and step: "visit_interface pcb ccb x mid = Inr res'"
    by (auto simp: forEach_raising_snoc split: sum.splits)
  have nl: "\<not> lacks_schema x"
    using step by (auto simp: visit_interface_lacks)
  show ?case
  proof (cases "\<exists>m. instance_named x m")
    case True
    then obtain m where m: "instance_named x m" ..
    with nl step have "res' = mid(m \<mapsto> descriptor_of pcb ccb m x)"
      by (simp add: visit_interface_named)
    with m snoc.IH [OF mid] show ?thesis
      by (auto dest: instance_named_unique)
  next
    case False
    with step have "res' = mid" by (simp add: visit_interface_other)
    with False snoc.IH [OF mid] show ?thesis by simp
  qed
qed

lemma loop_dom:
  assumes "forEach_raising (visit_interface pcb ccb) xs res = Inr res'"
  shows "dom res' = dom res \<union> {n. \<exists>interf\<in>set xs. instance_named interf n}"
proof -
  have "n \<in> dom res' \<longleftrightarrow> n \<in> dom res \<or> (\<exists>interf\<in>set xs. instance_named interf n)" for n
    using loop_result [OF assms, of n]
    by (cases "find (\<lambda>interf. instance_named interf n) (rev xs)")
       (auto simp: find_None_all dom_def dest: find_Some_holds)
  then show ?thesis by blast
qed

lemma forEach_visit_item_fields:
  "ci_name (forEach visit_item items cInf) = ci_name cInf"
  "ci_id (forEach visit_item items cInf) = ci_id cInf"
  "properties (forEach visit_item items cInf) = properties cInf @ names_of_type ''Property'' items"
  "commands (forEach visit_item items cInf) = commands cInf @ names_of_type ''Command'' items"
  "telemetry (forEach visit_item items cInf) = telemetry cInf @ names_of_type ''Telemetry'' items"
  by (induction items arbitrary: cInf)
     (auto simp: visit_item_def names_of_type_def addProperty_def addCommand_def
        addTelemetry_def)

lemma descriptor_of_fields:
  "ci_name (descriptor_of pcb ccb n interf) = n"
  "ci_id (descriptor_of pcb ccb n interf) = at_id interf"
  "properties (descriptor_of pcb ccb n interf) = names_of_type ''Property'' (items_of interf)"
  "commands (descriptor_of pcb ccb n interf) = names_of_type ''Command'' (items_of interf)"
  "telemetry (descriptor_of pcb ccb n interf) = names_of_type ''Telemetry'' (items_of interf)"
  by (simp_all add: descriptor_of_def forEach_visit_item_fields new_CommonInterface_def)

section \<open>Properties of parse\<close>

lemma parse_entries:
  "parse cm pcb ccb = forEach_raising (visit_interface pcb ccb) (entries cm) Map.empty"
  by (auto simp: parse_def entries_def split: option.splits)

lemma entries_empty_iff:
  "entries cm = [] \<longleftrightarrow>
   (cm = None \<or> (\<exists>m. cm = Some m \<and> (implements m = None \<or> implements m = Some [])))"
  by (auto simp: entries_def split: option.splits)

lemma parse_result_lookup:
  assumes "parse cm pcb ccb = Inr res"
  shows "res n = (case find (\<lambda>interf. instance_named interf n) (rev (entries cm)) of
                    None \<Rightarrow> None
                  | Some interf \<Rightarrow> Some (descriptor_of pcb ccb n interf))"
  using loop_result [of pcb ccb "entries cm" Map.empty res n] assms
  by (simp add: parse_entries)

lemma parse_result_dom:
  assumes "parse cm pcb ccb = Inr res"
  shows "dom res = {n. \<exists>interf\<in>set (entries cm). instance_named interf n}"
  using loop_dom [of pcb ccb "entries cm" Map.empty res] assms
  by (simp add: parse_entries)

lemma parse_result_origin:
  assumes "parse cm pcb ccb = Inr res" and "res n = Some d"
  shows "\<exists>interf\<in>set (entries cm). instance_named interf n \<and> d = descriptor_of pcb ccb n interf"
proof -
  from parse_result_lookup [OF assms(1), of n] assms(2)
  obtain interf where
    f: "find (\<lambda>interf. instance_named interf n) (rev (entries cm)) = Some interf"
    and d: "d = descriptor_of pcb ccb n interf"
    by (auto split: option.splits)
  from find_Some_holds [OF f] have "instance_named interf n" and "interf \<in> set (entries cm)"
    by simp_all
  with d show ?thesis by blast
qed

lemma parse_returns:
  assumes "\<forall>interf\<in>set (entries cm). \<not> lacks_schema interf"
  shows "\<exists>res. parse cm pcb ccb = Inr res"
proof (cases "parse cm pcb ccb")
  case (Inl e)
  then have "\<exists>interf\<in>set (entries cm). lacks_schema interf"
    using loop_raises_iff [of pcb ccb "entries cm" Map.empty] by (auto simp: parse_entries)
  with assms show ?thesis by blast
next
  case (Inr res)
  then show ?thesis by blast
qed

lemma visit_item_untyped:
  "item_at_type item \<noteq> Some ''Property'' \<Longrightarrow> item_at_type item \<noteq> Some ''Command'' \<Longrightarrow>
   item_at_type item \<noteq> Some ''Telemetry'' \<Longrightarrow> visit_item item cInf = cInf"
  by (simp add: visit_item_def)

lemma set_names_of_type':
  "set (names_of_type ty items) = item_name ` {item \<in> set items. item_at_type item = Some ty}"
  by (simp add: names_of_type_def)

lemma descriptor_of_match: "collections_match (descriptor_of pcb ccb n interf) interf"
  by (simp add: collections_match_def descriptor_of_fields set_names_of_type')

text \<open>
  Claim C2. For every interface instance that \<^verbatim>\<open>parse\<close> processes (a named
  \<^verbatim>\<open>InterfaceInstance\<close> with a schema object, handled by the callback \<open>visit_interface\<close>),
  the descriptor that is built and bound has a property collection holding exactly the
  names of the items of \<^verbatim>\<open>interf.schema.contents\<close> whose \<^verbatim>\<open>"@type"\<close> is \<^verbatim>\<open>'Property'\<close>, a
  command collection holding exactly those of \<^verbatim>\<open>'Command'\<close> and a telemetry collection
  holding exactly those of \<^verbatim>\<open>'Telemetry'\<close>; the same holds of every descriptor in the
  map that \<^verbatim>\<open>parse\<close> returns. An item with a missing or any other \<^verbatim>\<open>"@type"\<close> leaves the
  descriptor as it is.
\<close>

theorem descriptor_collections_by_type:
  "(instance_named interf n \<and> \<not> lacks_schema interf \<longrightarrow>
      (\<exists>d. visit_interface pcb ccb interf res = Inr (res(n \<mapsto> d)) \<and> collections_match d interf))
   \<and> (parse cm pcb ccb = Inr m \<and> m k = Some d' \<longrightarrow>
        (\<exists>e\<in>set (entries cm). instance_named e k \<and> collections_match d' e))
   \<and> (item_at_type item \<notin> {Some ''Property'', Some ''Command'', Some ''Telemetry''} \<longrightarrow>
        visit_item item cInf = cInf)"
proof (intro conjI impI)
  assume "instance_named interf n \<and> \<not> lacks_schema interf"
  then have "visit_interface pcb ccb interf res = Inr (res(n \<mapsto> descriptor_of pcb ccb n interf))"
    by (simp add: visit_interface_named)
  then show "\<exists>d. visit_interface pcb ccb interf res = Inr (res(n \<mapsto> d)) \<and> collections_match d interf"
    using descriptor_of_match [of pcb ccb n interf] by blast
next
  assume "parse cm pcb ccb = Inr m \<and> m k = Some d'"
  then obtain e where "e \<in> set (entries cm)" "instance_named e k" "d' = descriptor_of pcb ccb k e"
    using parse_result_origin [of cm pcb ccb m k d'] by blast
  then show "\<exists>e\<in>set (entries cm). instance_named e k \<and> collections_match d' e"
    using descriptor_of_match [of pcb ccb k e] by blast
next
  assume "item_at_type item \<notin> {Some ''Property'', Some ''Command'', Some ''Telemetry''}"
  then show "visit_item item cInf = cInf" by (simp add: visit_item_untyped)
qed

theorem descriptor_collections_by_type_witness:
  "(\<exists>d. visit_interface () () entry_sensor Map.empty = Inr (Map.empty(''sensor'' \<mapsto> d))
      \<and> collections_match d entry_sensor)
   \<and> set (properties (descriptor_of () () ''sensor'' entry_sensor)) = {''target''}
   \<and> set (commands (descriptor_of () () ''sensor'' entry_sensor)) = {''reboot''}
   \<and> set (telemetry (descriptor_of () () ''sensor'' entry_sensor)) = {''temperature''}
   \<and> parse model_sensor () () = Inr (Map.empty(''sensor'' \<mapsto> descriptor_of () () ''sensor'' entry_sensor))
   \<and> (\<exists>e\<in>set (entries model_sensor). instance_named e ''sensor''
         \<and> collections_match (descriptor_of () () ''sensor'' entry_sensor) e)
   \<and> visit_item item_untyped (descriptor_of () () ''sensor'' entry_sensor)
       = descriptor_of () () ''sensor'' entry_sensor"
proof -
  let ?d = "descriptor_of () () ''sensor'' entry_sensor"
  note claim = descriptor_collections_by_type
    [of entry_sensor "''sensor''" "()" "()" Map.empty model_sensor "Map.empty(''sensor'' \<mapsto> ?d)"
       "''sensor''" ?d item_untyped ?d]
  have named: "instance_named entry_sensor ''sensor'' \<and> \<not> lacks_schema entry_sensor"
    by (simp add: model_sensor_def entry_sensor_def entry_bare_def item_temperature_def item_target_def item_reboot_def item_untyped_def instance_named_def lacks_schema_def)
  have run: "parse model_sensor () () = Inr (Map.empty(''sensor'' \<mapsto> ?d))"
    by (simp add: model_sensor_def entry_sensor_def entry_bare_def item_temperature_def item_target_def item_reboot_def item_untyped_def eval_defs)
  have untyped:
    "item_at_type item_untyped \<notin> {Some ''Property'', Some ''Command'', Some ''Telemetry''}"
    by (simp add: model_sensor_def entry_sensor_def entry_bare_def item_temperature_def item_target_def item_reboot_def item_untyped_def)
  have sets: "set (properties ?d) = {''target''}" "set (commands ?d) = {''reboot''}"
    "set (telemetry ?d) = {''temperature''}"
    by (simp_all add: model_sensor_def entry_sensor_def entry_bare_def item_temperature_def item_target_def item_reboot_def item_untyped_def eval_defs)
  from claim named run untyped
  have "(\<exists>d. visit_interface () () entry_sensor Map.empty = Inr (Map.empty(''sensor'' \<mapsto> d))
            \<and> collections_match d entry_sensor)"
    and "\<exists>e\<in>set (entries model_sensor). instance_named e ''sensor'' \<and> collections_match ?d e"
    and "visit_item item_untyped ?d = ?d"
    by simp_all
  with sets run show ?thesis by simp
qed

lemma card_names_le:
  "finite {n. \<exists>interf\<in>set xs. instance_named interf n} \<and>
   card {n. \<exists>interf\<in>set xs. instance_named interf n} \<le> length xs"
proof -
  let ?f = "\<lambda>interf. case name interf of None \<Rightarrow> [] | Some n \<Rightarrow> n"
  have sub: "{n. \<exists>interf\<in>set xs. instance_named interf n} \<subseteq> ?f ` set xs"
    by (force simp: instance_named_def)
  have fin: "finite {n. \<exists>interf\<in>set xs. instance_named interf n}"
    using sub by (rule finite_subset) simp
  have "card {n. \<exists>interf\<in>set xs. instance_named interf n} \<le> card (?f ` set xs)"
    using sub by (intro card_mono) simp_all
  also have "\<dots> \<le> card (set xs)" by (rule card_image_le) simp
  also have "\<dots> \<le> length xs" by (rule card_length)
  finally show ?thesis using fin by simp
qed

text \<open>
  Claim C8. When several entries of \<^verbatim>\<open>implements\<close> are interface instances with the
  same non-empty name, the result of \<^verbatim>\<open>parse\<close> binds that name to the descriptor built
  from the last of them in document order, and the result has at most as many keys as
  \<^verbatim>\<open>implements\<close> has entries.
\<close>

theorem parse_last_entry_wins:
  assumes "parse cm pcb ccb = Inr res"
    and "entries cm = earlier @ interf # later"
    and "instance_named interf n"
    and "\<forall>other\<in>set later. \<not> instance_named other n"
  shows "res n = Some (descriptor_of pcb ccb n interf) \<and> card (dom res) \<le> length (entries cm)"
proof -
  have "find (\<lambda>e. instance_named e n) (rev (entries cm)) = Some interf"
    unfolding assms(2) using assms(3,4) by (rule find_last_match)
  with parse_result_lookup [OF assms(1), of n]
  have bound: "res n = Some (descriptor_of pcb ccb n interf)" by simp
  have "card (dom res) \<le> length (entries cm)"
    using card_names_le [of "entries cm"] by (simp add: parse_result_dom [OF assms(1)])
  with bound show ?thesis by simp
qed

theorem parse_last_entry_wins_witness:
  "parse model_overwritten () () = Inr (Map.empty(''sensor'' \<mapsto> descriptor_of () () ''sensor'' entry_late))
   \<and> instance_named entry_bare ''sensor'' \<and> instance_named entry_late ''sensor''
   \<and> properties (descriptor_of () () ''sensor'' entry_late) = [''mode'']
   \<and> card (dom (Map.empty(''sensor'' \<mapsto> descriptor_of () () ''sensor'' entry_late))) \<le> length (entries model_overwritten)"
proof -
  have run: "parse model_overwritten () () =
      Inr (Map.empty(''sensor'' \<mapsto> descriptor_of () () ''sensor'' entry_late))"
    by (simp add: model_overwritten_def entry_bare_def entry_late_def entry_foreign_def item_mode_def eval_defs)
  have split: "entries model_overwritten = [entry_bare] @ entry_late # [entry_foreign]"
    by (simp add: model_overwritten_def entries_def)
  have first: "instance_named entry_bare ''sensor''"
    by (simp add: model_overwritten_def entry_bare_def entry_late_def entry_foreign_def item_mode_def instance_named_def)
  have last: "instance_named entry_late ''sensor''"
    by (simp add: model_overwritten_def entry_bare_def entry_late_def entry_foreign_def item_mode_def instance_named_def)
  have others: "\<forall>other\<in>set [entry_foreign]. \<not> instance_named other ''sensor''"
    by (simp add: model_overwritten_def entry_bare_def entry_late_def entry_foreign_def item_mode_def instance_named_def)
  have props: "properties (descriptor_of () () ''sensor'' entry_late) = [''mode'']"
    by (simp add: model_overwritten_def entry_bare_def entry_late_def entry_foreign_def item_mode_def eval_defs)
  from parse_last_entry_wins [OF run split last others] run first last props
  show ?thesis by simp
qed

section \<open>Properties of parse on documents with null elements\<close>

lemmas eval_js_defs =
  parse_js_def visit_interface_js_def visit_item_js_def visit_item_def entries_js_def
  raises_at_def instance_named_js_def element_named_def items_js_def descriptor_js_def
  assign_def empty_object_def new_CommonInterface_def addProperty_def addCommand_def
  addTelemetry_def truthy_def

lemma items_js_raise:
  "None \<in> set items \<Longrightarrow> forEach_raising visit_item_js items cInf = Inl TypeError"
  by (induction items arbitrary: cInf) (auto simp: visit_item_js_def split: option.splits)

lemma items_js_walk:
  "None \<notin> set items \<Longrightarrow>
   forEach_raising visit_item_js items cInf = Inr (forEach visit_item (present items) cInf)"
proof (induction items arbitrary: cInf)
  case Nil
  then show ?case by simp
next
  case (Cons item items)
  then obtain it where "item = Some it" by (cases item) auto
  with Cons show ?case by (simp add: visit_item_js_def)
qed

lemma visit_interface_js_raises:
  "raises_at element \<Longrightarrow> visit_interface_js pcb ccb element res = Inl TypeError"
  by (auto simp: raises_at_def visit_interface_js_def items_js_def Let_def items_js_raise
      truthy_def split: option.splits)

lemma visit_interface_js_named:
  "instance_named_js interf n \<Longrightarrow> \<not> raises_at (Some interf) \<Longrightarrow>
   visit_interface_js pcb ccb (Some interf) res =
     Inr (assign res n (descriptor_js pcb ccb n interf))"
  by (auto simp: raises_at_def instance_named_js_def visit_interface_js_def items_js_def Let_def
      descriptor_js_def items_js_walk split: option.splits)

lemma visit_interface_js_unnamed:
  "\<forall>n. \<not> instance_named_js interf n \<Longrightarrow>
   visit_interface_js pcb ccb (Some interf) res = Inr res"
  by (auto simp: instance_named_js_def visit_interface_js_def split: option.splits)

lemma instance_named_js_unique:
  "instance_named_js interf n \<Longrightarrow> instance_named_js interf m \<Longrightarrow> n = m"
  by (simp add: instance_named_js_def)

lemma own_assign:
  "n \<noteq> ''__proto__'' \<Longrightarrow> own (assign res m d) n = (if m = n then Some d else own res n)"
  by (auto simp: assign_def)

lemma loop_js_raises_iff:
  "(\<exists>e. forEach_raising (visit_interface_js pcb ccb) xs res = Inl e) \<longleftrightarrow>
   (\<exists>element\<in>set xs. raises_at element)"
proof (induction xs arbitrary: res)
  case Nil
  then show ?case by simp
next
  case (Cons x xs)
  show ?case
  proof (cases "raises_at x")
    case True
    then show ?thesis by (simp add: visit_interface_js_raises)
  next
    case False
    then obtain interf where x: "x = Some interf" by (cases x) (auto simp: raises_at_def)
    show ?thesis
    proof (cases "\<exists>n. instance_named_js interf n")
      case True
      then obtain n where "instance_named_js interf n" ..
      with False x Cons.IH show ?thesis by (simp add: visit_interface_js_named)
    next
      case False
      with \<open>\<not> raises_at x\<close> x Cons.IH show ?thesis by (simp add: visit_interface_js_unnamed)
    qed
  qed
qed

lemma loop_js_result:
  assumes n: "n \<noteq> ''__proto__''"
  shows "forEach_raising (visit_interface_js pcb ccb) xs res = Inr res' \<Longrightarrow>
   own res' n = (case find (element_named n) (rev xs) of
                   None \<Rightarrow> own res n
                 | Some element \<Rightarrow> map_option (descriptor_js pcb ccb n) element)"
proof (induction xs arbitrary: res' rule: rev_induct)
  case Nil
  then show ?case by simp
next
  case (snoc x xs)
  from snoc.prems obtain mid where
    mid: "forEach_raising (visit_interface_js pcb ccb) xs res = Inr mid"
    and step: "visit_interface_js pcb ccb x mid = Inr res'"
    by (auto simp: forEach_raising_snoc split: sum.splits)
  have nr: "\<not> raises_at x"
    using step by (auto simp: visit_interface_js_raises)
  then obtain interf where x: "x = Some interf" by (cases x) (auto simp: raises_at_def)
  show ?case
  proof (cases "\<exists>m. instance_named_js interf m")
    case True
    then obtain m where m: "instance_named_js interf m" ..
    with nr step x have "res' = assign mid m (descriptor_js pcb ccb m interf)"
      by (simp add: visit_interface_js_named)
    with m x n snoc.IH [OF mid] show ?thesis
      by (auto simp: own_assign element_named_def dest: instance_named_js_unique)
  next
    case False
    with step x have "res' = mid" by (simp add: visit_interface_js_unnamed)
    with False x snoc.IH [OF mid] show ?thesis by (simp add: element_named_def)
  qed
qed

lemma find_rev_split:
  "find P (rev xs) = Some x \<Longrightarrow>
   \<exists>earlier later. xs = earlier @ x # later \<and> P x \<and> (\<forall>z\<in>set later. \<not> P z)"
proof (induction xs rule: rev_induct)
  case Nil
  then show ?case by simp
next
  case (snoc y ys)
  show ?case
  proof (cases "P y")
    case True
    with snoc.prems have "x = y" by simp
    with True have "ys @ [y] = ys @ x # [] \<and> P x \<and> (\<forall>z\<in>set []. \<not> P z)" by simp
    then show ?thesis by blast
  next
    case False
    with snoc.prems have "find P (rev ys) = Some x" by simp
    from snoc.IH [OF this] obtain earlier later where
      "ys = earlier @ x # later" "P x" "\<forall>z\<in>set later. \<not> P z" by blast
    with False have "ys @ [y] = earlier @ x # (later @ [y]) \<and> P x
        \<and> (\<forall>z\<in>set (later @ [y]). \<not> P z)" by simp
    then show ?thesis by blast
  qed
qed

lemma parse_js_entries:
  "parse_js cm pcb ccb =
     forEach_raising (visit_interface_js pcb ccb) (entries_js cm) empty_object"
  by (auto simp: parse_js_def entries_js_def split: option.splits)

lemma entries_js_empty_iff:
  "entries_js cm = [] \<longleftrightarrow>
   (cm = None \<or> (\<exists>m. cm = Some m \<and> (implements_js m = None \<or> implements_js m = Some [])))"
  by (auto simp: entries_js_def split: option.splits)

lemma parse_js_returns:
  assumes "\<forall>element\<in>set (entries_js cm). \<not> raises_at element"
  shows "\<exists>res. parse_js cm pcb ccb = Inr res"
proof (cases "parse_js cm pcb ccb")
  case (Inl e)
  then have "\<exists>element\<in>set (entries_js cm). raises_at element"
    using loop_js_raises_iff [of pcb ccb "entries_js cm" empty_object]
    by (auto simp: parse_js_entries)
  with assms show ?thesis by blast
next
  case (Inr res)
  then show ?thesis by blast
qed

lemma parse_js_lookup:
  assumes "parse_js cm pcb ccb = Inr res" and "n \<noteq> ''__proto__''"
  shows "own res n = (case find (element_named n) (rev (entries_js cm)) of
                        None \<Rightarrow> None
                      | Some element \<Rightarrow> map_option (descriptor_js pcb ccb n) element)"
proof -
  have "own (empty_object :: ('a, 'b) InterfaceMap_js) n = None"
    by (simp add: empty_object_def)
  with loop_js_result [OF assms(2), of pcb ccb "entries_js cm" empty_object res] assms(1)
  show ?thesis by (simp add: parse_js_entries split: option.splits)
qed

lemma parse_js_bound_last:
  assumes run: "parse_js cm pcb ccb = Inr res" and n: "n \<noteq> ''__proto__''"
    and split: "entries_js cm = earlier @ Some interf # later"
    and named: "instance_named_js interf n"
    and last: "\<forall>element\<in>set later. \<not> element_named n element"
  shows "own res n = Some (descriptor_js pcb ccb n interf)"
proof -
  have "element_named n (Some interf)" using named by (simp add: element_named_def)
  then have "find (element_named n) (rev (earlier @ Some interf # later)) = Some (Some interf)"
    using last by (rule find_last_match)
  with parse_js_lookup [OF run n] split show ?thesis by simp
qed

lemma parse_js_key_origin:
  assumes run: "parse_js cm pcb ccb = Inr res" and d: "own res n = Some d"
    and n: "n \<noteq> ''__proto__''"
  shows "\<exists>earlier interf later. entries_js cm = earlier @ Some interf # later
      \<and> instance_named_js interf n \<and> (\<forall>element\<in>set later. \<not> element_named n element)
      \<and> d = descriptor_js pcb ccb n interf"
proof -
  from parse_js_lookup [OF run n] d
  have "\<exists>element. find (element_named n) (rev (entries_js cm)) = Some element
      \<and> map_option (descriptor_js pcb ccb n) element = Some d"
    by (cases "find (element_named n) (rev (entries_js cm))") simp_all
  then obtain element where
    f: "find (element_named n) (rev (entries_js cm)) = Some element"
    and m: "map_option (descriptor_js pcb ccb n) element = Some d"
    by blast
  from m have "\<exists>interf. element = Some interf \<and> d = descriptor_js pcb ccb n interf"
    by (cases element) auto
  then obtain interf where e: "element = Some interf" and dd: "d = descriptor_js pcb ccb n interf"
    by blast
  from find_rev_split [OF f] obtain earlier later where
    "entries_js cm = earlier @ element # later" "element_named n element"
    "\<forall>z\<in>set later. \<not> element_named n z" by blast
  with e dd show ?thesis by (auto simp: element_named_def)
qed

lemma parse_js_key_iff:
  assumes run: "parse_js cm pcb ccb = Inr res" and n: "n \<noteq> ''__proto__''"
  shows "n \<in> dom (own res) \<longleftrightarrow> (\<exists>element\<in>set (entries_js cm). element_named n element)"
proof
  assume "n \<in> dom (own res)"
  then obtain d where "own res n = Some d" by blast
  from parse_js_key_origin [OF run this n] show "\<exists>element\<in>set (entries_js cm). element_named n element"
    by (auto simp: element_named_def)
next
  assume "\<exists>element\<in>set (entries_js cm). element_named n element"
  then have "find (element_named n) (rev (entries_js cm)) \<noteq> None"
    by (simp add: find_None_all)
  then obtain element where f: "find (element_named n) (rev (entries_js cm)) = Some element"
    by blast
  from find_Some_holds [OF f] obtain interf where "element = Some interf"
    by (cases element) (auto simp: element_named_def)
  with parse_js_lookup [OF run n] f show "n \<in> dom (own res)" by auto
qed

lemma own_never_proto:
  "forEach_raising (visit_interface_js pcb ccb) xs res = Inr res' \<Longrightarrow>
   own res' ''__proto__'' = own res ''__proto__''"
proof (induction xs arbitrary: res)
  case Nil
  then show ?case by simp
next
  case (Cons x xs)
  from Cons.prems obtain mid where step: "visit_interface_js pcb ccb x res = Inr mid"
    and rest: "forEach_raising (visit_interface_js pcb ccb) xs mid = Inr res'"
    by (auto split: sum.splits)
  have "own mid ''__proto__'' = own res ''__proto__''"
    using step
    by (auto simp: visit_interface_js_def assign_def Let_def split: option.splits if_splits sum.splits)
  with Cons.IH [OF rest] show ?case by simp
qed

lemma descriptor_js_fields:
  "ci_name (descriptor_js pcb ccb n interf) = n"
  "ci_id (descriptor_js pcb ccb n interf) = at_id_js interf"
  by (simp_all add: descriptor_js_def forEach_visit_item_fields new_CommonInterface_def)

text \<open>
  On a document without null elements this \<^verbatim>\<open>parse\<close> is the \<^verbatim>\<open>parse\<close> of the first
  section: the same error, or the object of the same map.
\<close>

lemma assign_object_of: "assign (object_of m) k cInf = object_of (m(k \<mapsto> cInf))"
  by (auto simp: assign_def object_of_def fun_upd_twist)

lemma items_js_lift:
  "forEach_raising visit_item_js (map Some items) cInf = Inr (forEach visit_item items cInf)"
  by (induction items arbitrary: cInf) (simp_all add: visit_item_js_def)

lemma visit_interface_js_lift:
  "visit_interface_js pcb ccb (Some (lift_entry interf)) (object_of m) =
     (case visit_interface pcb ccb interf m of
        Inl e \<Rightarrow> Inl e
      | Inr m' \<Rightarrow> Inr (object_of m'))"
  by (auto simp: visit_interface_js_def visit_interface_def lift_entry_def Let_def
      items_js_lift assign_object_of split: option.splits)

lemma loop_js_lift:
  "forEach_raising (visit_interface_js pcb ccb)
     (map (\<lambda>interf. Some (lift_entry interf)) xs) (object_of m) =
     (case forEach_raising (visit_interface pcb ccb) xs m of
        Inl e \<Rightarrow> Inl e
      | Inr m' \<Rightarrow> Inr (object_of m'))"
proof (induction xs arbitrary: m)
  case Nil
  then show ?case by simp
next
  case (Cons x xs)
  then show ?case
    by (cases "visit_interface pcb ccb x m") (simp_all add: visit_interface_js_lift)
qed

lemma parse_js_lift:
  "parse_js (lift_model cm) pcb ccb =
     (case parse cm pcb ccb of
        Inl e \<Rightarrow> Inl e
      | Inr m \<Rightarrow> Inr (object_of m))"
proof -
  have empty: "(empty_object :: ('a, 'b) InterfaceMap_js) = object_of Map.empty"
    by (simp add: empty_object_def object_of_def)
  show ?thesis
  proof (cases "entries cm = []")
    case True
    then show ?thesis
      by (auto simp: parse_js_def parse_def lift_model_def entries_def empty split: option.splits)
  next
    case False
    then obtain m xs where "cm = Some m" "implements m = Some xs" "xs \<noteq> []"
      by (auto simp: entries_def split: option.splits)
    then show ?thesis
      using loop_js_lift [of pcb ccb xs Map.empty]
      by (simp add: parse_js_def parse_def lift_model_def empty)
  qed
qed

text \<open>
  An interface instance named \<^verbatim>\<open>__proto__\<close> becomes the prototype of the result and no
  key of it.
\<close>

lemma proto_name_sets_prototype:
  "parse_js (Some \<lparr>implements_js = Some [Some entry_proto_js]\<rparr>) () () =
     Inr \<lparr>own = Map.empty,
          prototype = Some (descriptor_js () () ''__proto__'' entry_proto_js)\<rparr>"
  by (simp add: entry_proto_js_def eval_js_defs)

text \<open>
  Claim C3, as stated, has \<^verbatim>\<open>parse\<close> raise only when an interface instance lacks its
  schema object. On a document whose \<^verbatim>\<open>implements\<close> holds a single \<^verbatim>\<open>null\<close>, and so no
  entry at all, \<^verbatim>\<open>parse\<close> raises at line 8; and on a document whose only entry carries
  a schema object with a \<^verbatim>\<open>null\<close> among its contents, \<^verbatim>\<open>parse\<close> raises at line 15.
\<close>

theorem parse_js_raises_on_null_element:
  "parse_js (Some \<lparr>implements_js = Some [None]\<rparr>) () () = Inl TypeError
   \<and> present [None :: interface_entry_js option] = []
   \<and> parse_js (Some \<lparr>implements_js = Some [Some entry_null_item_js]\<rparr>) () () = Inl TypeError
   \<and> schema_js entry_null_item_js = Some \<lparr>contents_js = Some [Some item_mode, None]\<rparr>"
  by (simp add: entry_null_item_js_def item_mode_def eval_js_defs Let_def)

text \<open>
  Claim C3, amended. \<^verbatim>\<open>parse\<close> recovers from no error: it raises if and only if some
  element of \<^verbatim>\<open>implements\<close> is \<^verbatim>\<open>null\<close>, or is an \<^verbatim>\<open>InterfaceInstance\<close> with a non-empty
  name that has no schema object or has a \<^verbatim>\<open>null\<close> element in its \<^verbatim>\<open>schema.contents\<close>; when
  \<^verbatim>\<open>implements\<close> holds no such element, \<^verbatim>\<open>parse\<close> raises nothing and returns a map.
\<close>

theorem parse_js_raises_iff:
  "((\<exists>e. parse_js cm pcb ccb = Inl e) \<longleftrightarrow> (\<exists>element\<in>set (entries_js cm). raises_at element))
   \<and> ((\<forall>element\<in>set (entries_js cm). \<not> raises_at element) \<longrightarrow>
        (\<exists>res. parse_js cm pcb ccb = Inr res))"
  using loop_js_raises_iff [of pcb ccb "entries_js cm" empty_object]
    parse_js_returns [of cm pcb ccb]
  by (simp add: parse_js_entries)

theorem parse_js_raises_iff_witness:
  "(\<exists>e. parse_js model_null_item_js () () = Inl e)
   \<and> raises_at (Some entry_null_item_js)
   \<and> raises_at (Some entry_no_schema_js)
   \<and> (\<exists>e. parse_js (Some \<lparr>implements_js = Some [Some entry_no_schema_js]\<rparr>) () () = Inl e)
   \<and> (\<exists>res. parse_js model_sensor_js () () = Inr res)"
proof -
  have item: "raises_at (Some entry_null_item_js)"
    by (simp add: raises_at_def entry_null_item_js_def items_js_def)
  have lacks: "raises_at (Some entry_no_schema_js)"
    by (simp add: raises_at_def entry_no_schema_js_def)
  have bad1: "\<exists>element\<in>set (entries_js model_null_item_js). raises_at element"
    using item by (simp add: model_null_item_js_def entries_js_def)
  have bad2: "\<exists>element\<in>set (entries_js (Some \<lparr>implements_js = Some [Some entry_no_schema_js]\<rparr>)).
      raises_at element"
    using lacks by (simp add: entries_js_def)
  have sound: "\<forall>element\<in>set (entries_js model_sensor_js). \<not> raises_at element"
    by (simp add: model_sensor_js_def entries_js_def raises_at_def entry_bare_js_def
        entry_sensor_js_def items_js_def)
  from parse_js_raises_iff [of model_null_item_js "()" "()"] bad1
  have r1: "\<exists>e. parse_js model_null_item_js () () = Inl e" by blast
  from parse_js_raises_iff [of "Some \<lparr>implements_js = Some [Some entry_no_schema_js]\<rparr>" "()" "()"] bad2
  have r2: "\<exists>e. parse_js (Some \<lparr>implements_js = Some [Some entry_no_schema_js]\<rparr>) () () = Inl e"
    by blast
  from parse_js_raises_iff [of model_sensor_js "()" "()"] sound
  have r3: "\<exists>res. parse_js model_sensor_js () () = Inr res" by blast
  from r1 item lacks r2 r3 show ?thesis by (intro conjI)
qed

text \<open>
  Claim C1, as stated, promises a map for every document, each key bound to the
  descriptor of the entry that carries the name. A document whose only entry is an
  interface instance without a schema object gets no map: \<^verbatim>\<open>parse\<close> raises. And where two
  interface instances carry one name, the key is bound to the descriptor built from
  the \<^verbatim>\<open>"@id"\<close> of the later one, not of the earlier.
\<close>

theorem parse_js_raises_or_binds_last_entry:
  "parse_js (Some \<lparr>implements_js = Some [Some entry_no_schema_js]\<rparr>) () () = Inl TypeError
   \<and> instance_named_js entry_bare_js ''sensor''
   \<and> at_id_js entry_bare_js = Some ''urn:sensor:2''
   \<and> parse_js model_sensor_js () () =
       Inr \<lparr>own = Map.empty(''sensor'' \<mapsto> descriptor_js () () ''sensor'' entry_sensor_js),
            prototype = None\<rparr>
   \<and> ci_id (descriptor_js () () ''sensor'' entry_sensor_js) = Some ''urn:sensor:1''"
  by (simp add: model_sensor_js_def entry_no_schema_js_def entry_bare_js_def entry_sensor_js_def
      item_temperature_def item_target_def item_reboot_def item_untyped_def eval_js_defs Let_def)

text \<open>
  Claim C1, amended. For every capability model document on which \<^verbatim>\<open>parse\<close> raises no
  error (no element of \<^verbatim>\<open>implements\<close> is \<^verbatim>\<open>null\<close>, and every \<^verbatim>\<open>InterfaceInstance\<close> entry with
  a non-empty name carries a schema object whose contents hold no \<^verbatim>\<open>null\<close>), \<^verbatim>\<open>parse\<close>
  returns a map in which a name other than \<^verbatim>\<open>__proto__\<close> is a key exactly when it is the
  name of an entry of \<^verbatim>\<open>implements\<close> whose \<^verbatim>\<open>"@type"\<close> is \<^verbatim>\<open>'InterfaceInstance'\<close> and whose
  name is a non-empty string. Each key is bound to the descriptor built from that
  entry's name and \<^verbatim>\<open>"@id"\<close>, the entry being the last of that name in document order.
  When the model is absent, or \<^verbatim>\<open>implements\<close> is absent or empty, the result is the empty
  map.
\<close>

theorem parse_js_keys_when_no_error:
  assumes "\<forall>element\<in>set (entries_js cm). \<not> raises_at element"
  shows "\<exists>res. parse_js cm pcb ccb = Inr res
     \<and> (\<forall>n. n \<noteq> ''__proto__'' \<longrightarrow>
           (n \<in> dom (own res) \<longleftrightarrow>
            (\<exists>interf. Some interf \<in> set (entries_js cm) \<and> instance_named_js interf n)))
     \<and> (\<forall>n d. own res n = Some d \<longrightarrow>
           (\<exists>earlier interf later. entries_js cm = earlier @ Some interf # later
              \<and> instance_named_js interf n
              \<and> (\<forall>element\<in>set later. \<not> element_named n element)
              \<and> d = descriptor_js pcb ccb n interf
              \<and> ci_name d = n \<and> ci_id d = at_id_js interf))
     \<and> (\<forall>n earlier interf later. n \<noteq> ''__proto__''
           \<and> entries_js cm = earlier @ Some interf # later \<and> instance_named_js interf n
           \<and> (\<forall>element\<in>set later. \<not> element_named n element) \<longrightarrow>
           own res n = Some (descriptor_js pcb ccb n interf))
     \<and> ((cm = None \<or> (\<exists>m. cm = Some m \<and> (implements_js m = None \<or> implements_js m = Some [])))
           \<longrightarrow> res = empty_object)"
proof -
  from parse_js_returns [OF assms] obtain res where res: "parse_js cm pcb ccb = Inr res" ..
  have noproto: "own res ''__proto__'' = None"
    using own_never_proto [of pcb ccb "entries_js cm" empty_object res] res
    by (simp add: parse_js_entries empty_object_def)
  have keys: "\<forall>n. n \<noteq> ''__proto__'' \<longrightarrow>
      (n \<in> dom (own res) \<longleftrightarrow>
       (\<exists>interf. Some interf \<in> set (entries_js cm) \<and> instance_named_js interf n))"
  proof (intro allI impI)
    fix n :: string assume n: "n \<noteq> ''__proto__''"
    have "(\<exists>element\<in>set (entries_js cm). element_named n element) \<longleftrightarrow>
        (\<exists>interf. Some interf \<in> set (entries_js cm) \<and> instance_named_js interf n)"
      by (auto simp: element_named_def split: option.splits)
    with parse_js_key_iff [OF res n]
    show "n \<in> dom (own res) \<longleftrightarrow>
        (\<exists>interf. Some interf \<in> set (entries_js cm) \<and> instance_named_js interf n)"
      by simp
  qed
  have bound: "\<forall>n d. own res n = Some d \<longrightarrow>
      (\<exists>earlier interf later. entries_js cm = earlier @ Some interf # later
         \<and> instance_named_js interf n
         \<and> (\<forall>element\<in>set later. \<not> element_named n element)
         \<and> d = descriptor_js pcb ccb n interf
         \<and> ci_name d = n \<and> ci_id d = at_id_js interf)"
  proof (intro allI impI)
    fix n d assume d: "own res n = Some d"
    with noproto have n: "n \<noteq> ''__proto__''" by auto
    from parse_js_key_origin [OF res d n] obtain earlier interf later where
      "entries_js cm = earlier @ Some interf # later" "instance_named_js interf n"
      "\<forall>element\<in>set later. \<not> element_named n element" "d = descriptor_js pcb ccb n interf"
      by blast
    then have "entries_js cm = earlier @ Some interf # later
         \<and> instance_named_js interf n
         \<and> (\<forall>element\<in>set later. \<not> element_named n element)
         \<and> d = descriptor_js pcb ccb n interf
         \<and> ci_name d = n \<and> ci_id d = at_id_js interf"
      by (simp add: descriptor_js_fields)
    then show "\<exists>earlier interf later. entries_js cm = earlier @ Some interf # later
         \<and> instance_named_js interf n
         \<and> (\<forall>element\<in>set later. \<not> element_named n element)
         \<and> d = descriptor_js pcb ccb n interf
         \<and> ci_name d = n \<and> ci_id d = at_id_js interf"
      by blast
  qed
  have last: "\<forall>n earlier interf later. n \<noteq> ''__proto__''
      \<and> entries_js cm = earlier @ Some interf # later \<and> instance_named_js interf n
      \<and> (\<forall>element\<in>set later. \<not> element_named n element) \<longrightarrow>
      own res n = Some (descriptor_js pcb ccb n interf)"
  proof (intro allI impI)
    fix n earlier interf later
    assume h: "n \<noteq> ''__proto__''
      \<and> entries_js cm = earlier @ Some interf # later \<and> instance_named_js interf n
      \<and> (\<forall>element\<in>set later. \<not> element_named n element)"
    then have "n \<noteq> ''__proto__''" "entries_js cm = earlier @ Some interf # later"
      "instance_named_js interf n" "\<forall>element\<in>set later. \<not> element_named n element"
      by simp_all
    with res show "own res n = Some (descriptor_js pcb ccb n interf)"
      by (rule parse_js_bound_last)
  qed
  have none: "(cm = None \<or> (\<exists>m. cm = Some m \<and> (implements_js m = None \<or> implements_js m = Some [])))
      \<longrightarrow> res = empty_object"
  proof
    assume "cm = None \<or> (\<exists>m. cm = Some m \<and> (implements_js m = None \<or> implements_js m = Some []))"
    then have "entries_js cm = []" by (simp add: entries_js_empty_iff)
    with res show "res = empty_object" by (simp add: parse_js_entries)
  qed
  from res keys bound last none show ?thesis by (intro exI [of _ res] conjI)
qed

theorem parse_js_keys_when_no_error_witness:
  "parse_js model_sensor_js () () =
     Inr \<lparr>own = Map.empty(''sensor'' \<mapsto> descriptor_js () () ''sensor'' entry_sensor_js),
          prototype = None\<rparr>
   \<and> entries_js model_sensor_js = [Some entry_bare_js] @ Some entry_sensor_js # []
   \<and> instance_named_js entry_bare_js ''sensor''
   \<and> instance_named_js entry_sensor_js ''sensor''
   \<and> ci_id (descriptor_js () () ''sensor'' entry_sensor_js) = Some ''urn:sensor:1''
   \<and> (\<exists>res. parse_js model_sensor_js () () = Inr res
         \<and> ''sensor'' \<in> dom (own res)
         \<and> own res ''sensor'' = Some (descriptor_js () () ''sensor'' entry_sensor_js))"
proof -
  have sound: "\<forall>element\<in>set (entries_js model_sensor_js). \<not> raises_at element"
    by (simp add: model_sensor_js_def entries_js_def raises_at_def entry_bare_js_def
        entry_sensor_js_def items_js_def)
  have run: "parse_js model_sensor_js () () =
     Inr \<lparr>own = Map.empty(''sensor'' \<mapsto> descriptor_js () () ''sensor'' entry_sensor_js),
          prototype = None\<rparr>"
    by (simp add: model_sensor_js_def entry_bare_js_def entry_sensor_js_def item_temperature_def
        item_target_def item_reboot_def item_untyped_def eval_js_defs Let_def)
  have place: "entries_js model_sensor_js = [Some entry_bare_js] @ Some entry_sensor_js # []"
    by (simp add: model_sensor_js_def entries_js_def)
  have n1: "instance_named_js entry_bare_js ''sensor''"
    by (simp add: instance_named_js_def entry_bare_js_def)
  have n2: "instance_named_js entry_sensor_js ''sensor''"
    by (simp add: instance_named_js_def entry_sensor_js_def)
  have mem: "Some entry_sensor_js \<in> set (entries_js model_sensor_js)"
    by (simp add: place)
  have np: "''sensor'' \<noteq> ''__proto__''" by simp
  have later: "\<forall>element\<in>set []. \<not> element_named ''sensor'' element" by simp
  have ident: "ci_id (descriptor_js () () ''sensor'' entry_sensor_js) = Some ''urn:sensor:1''"
    by (simp add: descriptor_js_fields entry_sensor_js_def)
  from parse_js_keys_when_no_error [OF sound, of "()" "()"]
  obtain res where all: "parse_js model_sensor_js () () = Inr res
      \<and> (\<forall>n. n \<noteq> ''__proto__'' \<longrightarrow>
           (n \<in> dom (own res) \<longleftrightarrow>
            (\<exists>interf. Some interf \<in> set (entries_js model_sensor_js)
               \<and> instance_named_js interf n)))
      \<and> (\<forall>n d. own res n = Some d \<longrightarrow>
           (\<exists>earlier interf later. entries_js model_sensor_js = earlier @ Some interf # later
              \<and> instance_named_js interf n
              \<and> (\<forall>element\<in>set later. \<not> element_named n element)
              \<and> d = descriptor_js () () n interf
              \<and> ci_name d = n \<and> ci_id d = at_id_js interf))
      \<and> (\<forall>n earlier interf later. n \<noteq> ''__proto__''
           \<and> entries_js model_sensor_js = earlier @ Some interf # later
           \<and> instance_named_js interf n
           \<and> (\<forall>element\<in>set later. \<not> element_named n element) \<longrightarrow>
           own res n = Some (descriptor_js () () n interf))
      \<and> ((model_sensor_js = None
            \<or> (\<exists>m. model_sensor_js = Some m
                 \<and> (implements_js m = None \<or> implements_js m = Some [])))
           \<longrightarrow> res = empty_object)" ..
  from all have res: "parse_js model_sensor_js () () = Inr res" by (rule conjunct1)
  from all have keys: "\<forall>n. n \<noteq> ''__proto__'' \<longrightarrow>
      (n \<in> dom (own res) \<longleftrightarrow>
       (\<exists>interf. Some interf \<in> set (entries_js model_sensor_js) \<and> instance_named_js interf n))"
    by (rule conjunct2 [THEN conjunct1])
  from all have last: "\<forall>n earlier interf later. n \<noteq> ''__proto__''
      \<and> entries_js model_sensor_js = earlier @ Some interf # later \<and> instance_named_js interf n
      \<and> (\<forall>element\<in>set later. \<not> element_named n element) \<longrightarrow>
      own res n = Some (descriptor_js () () n interf)"
    by (rule conjunct2 [THEN conjunct2, THEN conjunct2, THEN conjunct1])
  have named: "\<exists>interf. Some interf \<in> set (entries_js model_sensor_js)
      \<and> instance_named_js interf ''sensor''"
    using mem n2 by (intro exI [of _ entry_sensor_js] conjI)
  from keys have "''sensor'' \<noteq> ''__proto__'' \<longrightarrow>
      (''sensor'' \<in> dom (own res) \<longleftrightarrow>
       (\<exists>interf. Some interf \<in> set (entries_js model_sensor_js)
          \<and> instance_named_js interf ''sensor''))"
    by (rule spec)
  then have "''sensor'' \<in> dom (own res) \<longleftrightarrow>
       (\<exists>interf. Some interf \<in> set (entries_js model_sensor_js)
          \<and> instance_named_js interf ''sensor'')"
    using np by (rule mp)
  then have key: "''sensor'' \<in> dom (own res)" using named by (rule iffD2)
  have prem: "''sensor'' \<noteq> ''__proto__''
      \<and> entries_js model_sensor_js = [Some entry_bare_js] @ Some entry_sensor_js # []
      \<and> instance_named_js entry_sensor_js ''sensor''
      \<and> (\<forall>element\<in>set []. \<not> element_named ''sensor'' element)"
    using np place n2 later by (intro conjI)
  have bound: "own res ''sensor'' = Some (descriptor_js () () ''sensor'' entry_sensor_js)"
    using last [THEN spec, THEN spec, THEN spec, THEN spec,
        of "''sensor''" "[Some entry_bare_js]" entry_sensor_js "[]"] prem
    by (rule mp)
  have ex: "\<exists>res. parse_js model_sensor_js () () = Inr res
         \<and> ''sensor'' \<in> dom (own res)
         \<and> own res ''sensor'' = Some (descriptor_js () () ''sensor'' entry_sensor_js)"
    using res key bound by (intro exI [of _ res] conjI)
  from run place n1 n2 ident ex show ?thesis by (intro conjI)
qed

text \<open>
  Claim C9, as stated, binds every interface instance whose schema has no contents to
  a descriptor with empty collections. When a later interface instance has the same
  name, the name is bound to the later descriptor, whose collections need not be empty.
\<close>

theorem bare_entry_overwritten_by_later_entry:
  "instance_named_js entry_bare_js ''sensor''
   \<and> schema_js entry_bare_js = Some \<lparr>contents_js = None\<rparr>
   \<and> parse_js (Some \<lparr>implements_js = Some [Some entry_bare_js, Some entry_late_js]\<rparr>) () () =
       Inr \<lparr>own = Map.empty(''sensor'' \<mapsto> descriptor_js () () ''sensor'' entry_late_js),
            prototype = None\<rparr>
   \<and> properties (descriptor_js () () ''sensor'' entry_late_js) = [''mode'']"
  by (simp add: entry_bare_js_def entry_late_js_def item_mode_def eval_js_defs Let_def)

lemma bare_descriptor_js:
  assumes "schema_js interf = Some sch" and "contents_js sch = None \<or> contents_js sch = Some []"
  shows "descriptor_js pcb ccb n interf = new_CommonInterface n (at_id_js interf) pcb ccb"
  using assms by (auto simp: descriptor_js_def items_js_def)

text \<open>
  Claim C9, amended. An \<^verbatim>\<open>InterfaceInstance\<close> entry with a non-empty name whose schema
  object is present but whose \<^verbatim>\<open>schema.contents\<close> is absent or empty raises no error:
  processing it assigns to its name a descriptor whose property, command and telemetry
  collections are all empty. When the name is other than \<^verbatim>\<open>__proto__\<close>, it is a key of
  the result of \<^verbatim>\<open>parse\<close>, and the key is bound to that empty descriptor when no later
  interface instance of \<^verbatim>\<open>implements\<close> has the same name.
\<close>

theorem bare_schema_entry_is_bound:
  assumes "instance_named_js interf n"
    and "schema_js interf = Some sch"
    and "contents_js sch = None \<or> contents_js sch = Some []"
  shows "visit_interface_js pcb ccb (Some interf) res0 =
           Inr (assign res0 n (new_CommonInterface n (at_id_js interf) pcb ccb))
         \<and> properties (new_CommonInterface n (at_id_js interf) pcb ccb) = []
         \<and> commands (new_CommonInterface n (at_id_js interf) pcb ccb) = []
         \<and> telemetry (new_CommonInterface n (at_id_js interf) pcb ccb) = []
         \<and> (n \<noteq> ''__proto__'' \<and> parse_js cm pcb ccb = Inr res
               \<and> Some interf \<in> set (entries_js cm) \<longrightarrow> n \<in> dom (own res))
         \<and> (n \<noteq> ''__proto__'' \<and> parse_js cm pcb ccb = Inr res
               \<and> entries_js cm = earlier @ Some interf # later
               \<and> (\<forall>element\<in>set later. \<not> element_named n element) \<longrightarrow>
             own res n = Some (new_CommonInterface n (at_id_js interf) pcb ccb))"
proof -
  have quiet: "\<not> raises_at (Some interf)"
    using assms(2,3) by (auto simp: raises_at_def items_js_def)
  have bare: "descriptor_js pcb ccb n interf = new_CommonInterface n (at_id_js interf) pcb ccb"
    using assms(2,3) by (rule bare_descriptor_js)
  have step: "visit_interface_js pcb ccb (Some interf) res0 =
      Inr (assign res0 n (new_CommonInterface n (at_id_js interf) pcb ccb))"
    using visit_interface_js_named [OF assms(1) quiet, of pcb ccb res0] bare by simp
  have empty: "properties (new_CommonInterface n (at_id_js interf) pcb ccb) = []"
    "commands (new_CommonInterface n (at_id_js interf) pcb ccb) = []"
    "telemetry (new_CommonInterface n (at_id_js interf) pcb ccb) = []"
    by (simp_all add: new_CommonInterface_def)
  have key: "n \<noteq> ''__proto__'' \<and> parse_js cm pcb ccb = Inr res
      \<and> Some interf \<in> set (entries_js cm) \<longrightarrow> n \<in> dom (own res)"
  proof
    assume run: "n \<noteq> ''__proto__'' \<and> parse_js cm pcb ccb = Inr res
      \<and> Some interf \<in> set (entries_js cm)"
    have "element_named n (Some interf)" using assms(1) by (simp add: element_named_def)
    with run have "\<exists>element\<in>set (entries_js cm). element_named n element" by blast
    with run parse_js_key_iff [of cm pcb ccb res n] show "n \<in> dom (own res)" by blast
  qed
  have last: "n \<noteq> ''__proto__'' \<and> parse_js cm pcb ccb = Inr res
      \<and> entries_js cm = earlier @ Some interf # later
      \<and> (\<forall>element\<in>set later. \<not> element_named n element) \<longrightarrow>
      own res n = Some (new_CommonInterface n (at_id_js interf) pcb ccb)"
    using parse_js_bound_last [of cm pcb ccb res n earlier interf later] assms(1) bare by simp
  from step empty key last show ?thesis by (intro conjI)
qed

theorem bare_schema_entry_is_bound_witness:
  "visit_interface_js () () (Some entry_bare_js) empty_object =
     Inr (assign empty_object ''sensor'' (new_CommonInterface ''sensor'' (at_id_js entry_bare_js) () ()))
   \<and> properties (new_CommonInterface ''sensor'' (at_id_js entry_bare_js) () ()) = []
   \<and> commands (new_CommonInterface ''sensor'' (at_id_js entry_bare_js) () ()) = []
   \<and> telemetry (new_CommonInterface ''sensor'' (at_id_js entry_bare_js) () ()) = []
   \<and> parse_js (Some \<lparr>implements_js = Some [Some entry_late_js, Some entry_bare_js]\<rparr>) () () =
       Inr \<lparr>own = Map.empty(''sensor'' \<mapsto>
              new_CommonInterface ''sensor'' (at_id_js entry_bare_js) () ()),
            prototype = None\<rparr>
   \<and> ''sensor'' \<in> dom (Map.empty(''sensor'' \<mapsto>
        new_CommonInterface ''sensor'' (at_id_js entry_bare_js) () ()))"
proof -
  let ?cm = "Some \<lparr>implements_js = Some [Some entry_late_js, Some entry_bare_js]\<rparr>"
  let ?d = "new_CommonInterface ''sensor'' (at_id_js entry_bare_js) () ()"
  let ?res = "\<lparr>own = Map.empty(''sensor'' \<mapsto> ?d), prototype = None\<rparr>"
  have named: "instance_named_js entry_bare_js ''sensor''"
    by (simp add: instance_named_js_def entry_bare_js_def)
  have carried: "schema_js entry_bare_js = Some \<lparr>contents_js = None\<rparr>"
    by (simp add: entry_bare_js_def)
  have bare: "contents_js \<lparr>contents_js = None\<rparr> = None
      \<or> contents_js \<lparr>contents_js = None\<rparr> = Some []"
    by simp
  have run: "parse_js ?cm () () = Inr ?res"
    by (simp add: entry_late_js_def entry_bare_js_def item_mode_def eval_js_defs Let_def)
  have place: "entries_js ?cm = [Some entry_late_js] @ Some entry_bare_js # []"
    by (simp add: entries_js_def)
  have member: "Some entry_bare_js \<in> set (entries_js ?cm)"
    by (simp add: entries_js_def)
  have np: "''sensor'' \<noteq> ''__proto__''" by simp
  have later: "\<forall>element\<in>set []. \<not> element_named ''sensor'' element" by simp
  note claim = bare_schema_entry_is_bound
    [OF named carried bare, of "()" "()" empty_object ?cm ?res "[Some entry_late_js]" "[]"]
  have step: "visit_interface_js () () (Some entry_bare_js) empty_object =
      Inr (assign empty_object ''sensor'' ?d)"
    by (rule claim [THEN conjunct1])
  have e1: "properties ?d = []"
    by (rule claim [THEN conjunct2, THEN conjunct1])
  have e2: "commands ?d = []"
    by (rule claim [THEN conjunct2, THEN conjunct2, THEN conjunct1])
  have e3: "telemetry ?d = []"
    by (rule claim [THEN conjunct2, THEN conjunct2, THEN conjunct2, THEN conjunct1])
  have present: "''sensor'' \<noteq> ''__proto__'' \<and> parse_js ?cm () () = Inr ?res
      \<and> Some entry_bare_js \<in> set (entries_js ?cm)"
    using np run member by (intro conjI)
  have "''sensor'' \<in> dom (own ?res)"
    using claim [THEN conjunct2, THEN conjunct2, THEN conjunct2, THEN conjunct2, THEN conjunct1]
      present by (rule mp)
  then have key: "''sensor'' \<in> dom (Map.empty(''sensor'' \<mapsto> ?d))" by simp
  from step e1 e2 e3 run key show ?thesis by (intro conjI)
qed

section \<open>Properties of the walk\<close>

lemma items_traced:
  "forEach_items_traced i j items (cInf, log) =
     (forEach visit_item items cInf, log @ map (VisitItem i) [j..<j + length items])"
proof (induction items arbitrary: j cInf log)
  case Nil
  then show ?case by simp
next
  case (Cons item items)
  have "[j..<j + length (item # items)] = j # [Suc j..<Suc j + length items]"
    by (simp add: upt_rec)
  with Cons show ?case by simp
qed

lemma interface_traced:
  "visit_interface_traced pcb ccb i interf (res, log) =
     (visit_interface pcb ccb interf res,
      log @ VisitEntry i #
        (if lacks_schema interf then []
         else if is_instance interf then map (VisitItem i) [0..<length (items_of interf)]
         else []))"
  by (auto simp: visit_interface_traced_def visit_interface_def lacks_schema_def
      is_instance_def items_of_def items_traced Let_def split: option.splits)

lemma entries_traced:
  "forEach_entries_traced pcb ccb i xs (res, log) =
     (forEach_raising (visit_interface pcb ccb) xs res, log @ expected_visits i xs)"
proof (induction xs arbitrary: i res log)
  case Nil
  then show ?case by simp
next
  case (Cons x xs)
  show ?case
  proof (cases "visit_interface pcb ccb x res")
    case (Inl e)
    then have "lacks_schema x"
      by (auto simp: visit_interface_def lacks_schema_def Let_def split: option.splits if_splits)
    with Inl show ?thesis by (simp add: interface_traced)
  next
    case (Inr res')
    then have "\<not> lacks_schema x" by (auto simp: visit_interface_lacks)
    with Inr Cons.IH show ?thesis by (simp add: interface_traced)
  qed
qed

lemma parse_traced_eq:
  "parse_traced cm pcb ccb = (parse cm pcb ccb, expected_visits 0 (entries cm))"
  by (auto simp: parse_traced_def parse_def entries_def entries_traced split: option.splits)

lemma entry_visited:
  "VisitEntry k \<in> set (expected_visits i xs) \<Longrightarrow> i \<le> k \<and> k < i + length xs"
  by (induction xs arbitrary: i) (fastforce split: if_splits)+

lemma item_visited:
  "VisitItem k j \<in> set (expected_visits i xs) \<Longrightarrow>
   i \<le> k \<and> k < i + length xs \<and> is_instance (xs ! (k - i)) \<and> j < length (items_of (xs ! (k - i)))"
proof (induction xs arbitrary: i)
  case Nil
  then show ?case by simp
next
  case (Cons x xs)
  show ?case
  proof (cases "k = i")
    case True
    have "VisitItem i j \<notin> set (expected_visits (Suc i) xs)"
    proof
      assume "VisitItem i j \<in> set (expected_visits (Suc i) xs)"
      from Cons.IH [OF this [folded True]] True show False by simp
    qed
    with Cons.prems True show ?thesis by (auto split: if_splits)
  next
    case False
    with Cons.prems have later: "VisitItem k j \<in> set (expected_visits (Suc i) xs)"
      by (auto split: if_splits)
    from Cons.IH [OF later] have "Suc i \<le> k" "k < Suc i + length xs"
      "is_instance (xs ! (k - Suc i))" "j < length (items_of (xs ! (k - Suc i)))"
      by simp_all
    moreover from \<open>Suc i \<le> k\<close> have "(x # xs) ! (k - i) = xs ! (k - Suc i)"
      by (simp add: nth_Cons' Suc_diff_le)
    ultimately show ?thesis by simp
  qed
qed

lemma distinct_expected: "distinct (expected_visits i xs)"
proof (induction xs arbitrary: i)
  case Nil
  then show ?case by simp
next
  case (Cons x xs)
  have a: "VisitEntry i \<notin> set (expected_visits (Suc i) xs)"
    using entry_visited [of i "Suc i" xs] by auto
  have b: "VisitItem i j \<notin> set (expected_visits (Suc i) xs)" for j
    using item_visited [of i j "Suc i" xs] by auto
  have c: "distinct (map (VisitItem i) [0..<length (items_of x)])"
    by (simp add: distinct_map inj_on_def)
  from a b c Cons.IH [of "Suc i"] show ?case by (auto simp: image_iff)
qed

lemma length_expected:
  "length (expected_visits i xs) \<le> length xs + sum_list (map (\<lambda>e. length (items_of e)) xs)"
proof (induction xs arbitrary: i)
  case Nil
  then show ?case by simp
next
  case (Cons x xs)
  from Cons.IH [of "Suc i"] show ?case by auto
qed

lemma complete_expected:
  assumes "\<forall>interf\<in>set xs. \<not> lacks_schema interf" and "k < length xs"
  shows "VisitEntry (i + k) \<in> set (expected_visits i xs)"
    and "is_instance (xs ! k) \<Longrightarrow> j < length (items_of (xs ! k)) \<Longrightarrow>
         VisitItem (i + k) j \<in> set (expected_visits i xs)"
  using assms
proof (induction xs arbitrary: i k)
  case Nil
  {
    case 1 then show ?case by simp
  next
    case 2 then show ?case by simp
  }
next
  case (Cons x xs)
  {
    case 1
    show ?case
    proof (cases k)
      case 0
      then show ?thesis by simp
    next
      case (Suc k')
      with 1 Cons.IH(1) [of k' "Suc i"] show ?thesis by simp
    qed
  next
    case 2
    show ?case
    proof (cases k)
      case 0
      with 2 show ?thesis by simp
    next
      case (Suc k')
      with 2 Cons.IH(2) [of k' "Suc i"] show ?thesis by simp
    qed
  }
qed

text \<open>
  Claim C5, as stated, has every item of every entry's \<^verbatim>\<open>schema.contents\<close> visited once.
  The items of an entry that is no interface instance are never visited.
\<close>

theorem foreign_entry_items_not_visited:
  "snd (parse_traced (Some \<lparr>implements = Some [entry_foreign]\<rparr>) () ()) = [VisitEntry 0]
   \<and> items_of entry_foreign = [item_mode]"
  by (simp add: parse_traced_def visit_interface_traced_def entry_foreign_def items_of_def)

text \<open>
  Claim C5, amended. \<^verbatim>\<open>parse\<close> terminates on every finite input document, with the
  outcome of \<^verbatim>\<open>parse\<close> and a finite log: a single walk, without recursion, that visits
  no entry and no item twice and makes at most as many visits as there are entries and
  items. It visits only items of the \<^verbatim>\<open>schema.contents\<close> of interface instances with a
  non-empty name. When no entry lacks its schema, so that no error is raised, it visits
  every entry of \<^verbatim>\<open>implements\<close> once and every item of every such interface instance
  once.
\<close>

theorem parse_single_walk:
  "(\<exists>outcome log. parse_traced cm pcb ccb = (outcome, log))
   \<and> fst (parse_traced cm pcb ccb) = parse cm pcb ccb
   \<and> distinct (snd (parse_traced cm pcb ccb))
   \<and> length (snd (parse_traced cm pcb ccb))
        \<le> length (entries cm) + sum_list (map (\<lambda>e. length (items_of e)) (entries cm))
   \<and> (VisitEntry k \<in> set (snd (parse_traced cm pcb ccb)) \<longrightarrow> k < length (entries cm))
   \<and> (VisitItem k j \<in> set (snd (parse_traced cm pcb ccb)) \<longrightarrow>
        k < length (entries cm) \<and> is_instance (entries cm ! k)
        \<and> j < length (items_of (entries cm ! k)))
   \<and> ((\<forall>interf\<in>set (entries cm). \<not> lacks_schema interf) \<and> k < length (entries cm) \<longrightarrow>
        VisitEntry k \<in> set (snd (parse_traced cm pcb ccb))
        \<and> (is_instance (entries cm ! k) \<and> j < length (items_of (entries cm ! k)) \<longrightarrow>
             VisitItem k j \<in> set (snd (parse_traced cm pcb ccb))))"
proof -
  let ?log = "expected_visits 0 (entries cm)"
  have run: "parse_traced cm pcb ccb = (parse cm pcb ccb, ?log)"
    by (rule parse_traced_eq)
  have once: "distinct ?log" by (rule distinct_expected)
  have bound: "length ?log
      \<le> length (entries cm) + sum_list (map (\<lambda>e. length (items_of e)) (entries cm))"
    by (rule length_expected)
  have entry: "VisitEntry k \<in> set ?log \<longrightarrow> k < length (entries cm)"
    using entry_visited [of k 0 "entries cm"] by simp
  have item: "VisitItem k j \<in> set ?log \<longrightarrow>
      k < length (entries cm) \<and> is_instance (entries cm ! k)
      \<and> j < length (items_of (entries cm ! k))"
    using item_visited [of k j 0 "entries cm"] by simp
  have all: "(\<forall>interf\<in>set (entries cm). \<not> lacks_schema interf) \<and> k < length (entries cm) \<longrightarrow>
      VisitEntry k \<in> set ?log
      \<and> (is_instance (entries cm ! k) \<and> j < length (items_of (entries cm ! k)) \<longrightarrow>
           VisitItem k j \<in> set ?log)"
    using complete_expected(1) [of "entries cm" k 0] complete_expected(2) [of "entries cm" k j 0]
    by simp
  have ends: "\<exists>outcome log. parse_traced cm pcb ccb = (outcome, log)"
    using run by blast
  have same: "fst (parse_traced cm pcb ccb) = parse cm pcb ccb"
    by (simp add: run)
  have log: "snd (parse_traced cm pcb ccb) = ?log"
    by (simp add: run)
  show ?thesis
    unfolding log
    using ends same once bound entry item all by (intro conjI)
qed

theorem parse_single_walk_witness:
  "parse_traced model_overwritten () () =
     (parse model_overwritten () (), [VisitEntry 0, VisitEntry 1, VisitItem 1 0, VisitEntry 2])
   \<and> distinct [VisitEntry 0, VisitEntry 1, VisitItem 1 0, VisitEntry 2]
   \<and> length (entries model_overwritten) = 3
   \<and> is_instance (entries model_overwritten ! 1)
   \<and> items_of (entries model_overwritten ! 1) = [item_mode]
   \<and> VisitEntry 1 \<in> set (snd (parse_traced model_overwritten () ()))
   \<and> VisitItem 1 0 \<in> set (snd (parse_traced model_overwritten () ()))"
proof -
  have run: "parse_traced model_overwritten () () =
      (parse model_overwritten () (), [VisitEntry 0, VisitEntry 1, VisitItem 1 0, VisitEntry 2])"
    by (simp add: parse_traced_def visit_interface_traced_def parse_def visit_interface_def
        model_overwritten_def entry_bare_def entry_late_def entry_foreign_def Let_def)
  have sound: "\<forall>interf\<in>set (entries model_overwritten). \<not> lacks_schema interf"
    by (simp add: entries_def lacks_schema_def model_overwritten_def entry_bare_def
        entry_late_def entry_foreign_def)
  have size: "length (entries model_overwritten) = 3"
    by (simp add: entries_def model_overwritten_def)
  have inst: "is_instance (entries model_overwritten ! 1)"
    by (simp add: entries_def model_overwritten_def is_instance_def entry_late_def)
  have items: "items_of (entries model_overwritten ! 1) = [item_mode]"
    by (simp add: entries_def model_overwritten_def items_of_def entry_late_def)
  have k: "1 < length (entries model_overwritten)"
    using size by simp
  have j: "0 < length (items_of (entries model_overwritten ! 1))"
    using items by simp
  note walk = parse_single_walk [of model_overwritten "()" "()" 1 0]
  from walk have once: "distinct (snd (parse_traced model_overwritten () ()))"
    by blast
  from walk sound k have entry: "VisitEntry 1 \<in> set (snd (parse_traced model_overwritten () ()))"
    by blast
  from walk sound k inst j
  have item: "VisitItem 1 0 \<in> set (snd (parse_traced model_overwritten () ()))"
    by blast
  from once have once': "distinct [VisitEntry 0, VisitEntry 1, VisitItem 1 0, VisitEntry 2]"
    by (simp only: run snd_conv)
  from run once' size inst items entry item show ?thesis
    by (intro conjI)
qed

section \<open>Properties of parse on the store\<close>

subsection \<open>What a call writes\<close>

lemma extends_refl: "constructed_above n h \<Longrightarrow> extends n h h"
  by (simp add: extends_def)

lemma extends_trans: "extends n h h' \<Longrightarrow> extends n h' h'' \<Longrightarrow> extends n h h''"
  by (simp add: extends_def)

lemma extends_above: "extends n h h' \<Longrightarrow> constructed_above n h'"
  by (simp add: extends_def)

lemma extends_update:
  assumes "constructed_above n h" and "n \<le> r" and "is_constructed v"
  shows "extends n h (h[r := v])"
proof -
  have "set (drop n (h[r := v])) \<subseteq> insert v (set (drop n h))"
    using assms(2) by (simp add: drop_update_swap set_update_subset_insert)
  with assms show ?thesis
    by (auto simp: extends_def constructed_above_def)
qed

lemma extends_append:
  assumes "constructed_above n h" and "is_constructed v"
  shows "extends n h (h @ [v])"
  using assms by (auto simp: extends_def constructed_above_def)

lemma visit_item_heap_extends:
  assumes "constructed_above n h" and "n \<le> cInf"
    and "visit_item_heap cInf item h = (st, h')"
  shows "extends n h h'"
proof -
  have same: "extends n h h" using assms(1) by (rule extends_refl)
  have upd: "extends n h (h[cInf := InterfaceObject d])" for d :: "('a, 'b) CommonInterface"
    using assms(1,2) by (rule extends_update) (simp add: is_constructed_def)
  from assms(3) same upd show ?thesis
    by (auto simp: visit_item_heap_def split: option.splits heap_object.splits if_splits)
qed

lemma forEach_from_extends:
  assumes step: "\<And>r h st h'. constructed_above n h \<Longrightarrow> f r h = (st, h') \<Longrightarrow> extends n h h'"
  shows "constructed_above n h \<Longrightarrow> forEach_from f a k m h = (st, h') \<Longrightarrow> extends n h h'"
proof (induction m arbitrary: k h)
  case 0
  then show ?case by (simp add: extends_refl)
next
  case (Suc m)
  show ?case
  proof (cases "deref h a")
    case None
    with Suc.prems show ?thesis by (simp add: extends_refl)
  next
    case (Some obj)
    show ?thesis
    proof (cases obj)
      case (ArrayObject rs)
      show ?thesis
      proof (cases "k < length rs")
        case True
        obtain st1 h1 where call: "f (rs ! k) h = (st1, h1)" by (cases "f (rs ! k) h")
        from step [OF Suc.prems(1) call] have e1: "extends n h h1" .
        show ?thesis
        proof (cases st1)
          case Normal
          with Suc.prems(2) Some ArrayObject True call
          have "forEach_from f a (Suc k) m h1 = (st, h')" by simp
          from Suc.IH [OF extends_above [OF e1] this] e1 show ?thesis
            by (blast intro: extends_trans)
        next
          case (Raised e)
          with Suc.prems(2) Some ArrayObject True call e1 show ?thesis by simp
        next
          case IllTyped
          with Suc.prems(2) Some ArrayObject True call e1 show ?thesis by simp
        qed
      next
        case False
        with Suc.prems(2) Some ArrayObject
        have "forEach_from f a (Suc k) m h = (st, h')" by simp
        from Suc.IH [OF Suc.prems(1) this] show ?thesis .
      qed
    qed (use Suc.prems Some in \<open>simp_all add: extends_refl\<close>)
  qed
qed

lemma forEach_heap_extends:
  assumes "\<And>r h st h'. constructed_above n h \<Longrightarrow> f r h = (st, h') \<Longrightarrow> extends n h h'"
    and "constructed_above n h" and "forEach_heap f a h = (st, h')"
  shows "extends n h h'"
proof (cases "\<exists>rs. deref h a = Some (ArrayObject rs)")
  case True
  then obtain rs where "deref h a = Some (ArrayObject rs)" ..
  with assms(3) have "forEach_from f a 0 (length rs) h = (st, h')"
    by (simp add: forEach_heap_def)
  from forEach_from_extends [of n f, OF assms(1) assms(2) this] show ?thesis by simp
next
  case False
  with assms(3) have "h' = h"
    by (auto simp: forEach_heap_def split: option.splits heap_object.splits)
  with assms(2) show ?thesis by (simp add: extends_refl)
qed

lemma walk_contents_extends:
  assumes "constructed_above n h" and "n \<le> cInf" and "walk_contents cInf cont h = (st, h')"
  shows "extends n h h'"
proof (cases "\<exists>items rs. cont = Some items \<and> deref h items = Some (ArrayObject rs) \<and> length rs > 0")
  case True
  then obtain items where "walk_contents cInf cont h = forEach_heap (visit_item_heap cInf) items h"
    by (auto simp: walk_contents_def)
  with assms(3) have "forEach_heap (visit_item_heap cInf) items h = (st, h')" by simp
  then show ?thesis
    using assms(1,2) by (intro forEach_heap_extends [of n "visit_item_heap cInf" h items st h'])
      (auto intro: visit_item_heap_extends)
next
  case False
  with assms(3) have "h' = h"
    by (auto simp: walk_contents_def split: option.splits heap_object.splits if_splits)
  with assms(1) show ?thesis by (simp add: extends_refl)
qed

lemma store_interface_extends:
  assumes "constructed_above n h" and "n \<le> res"
    and "store_interface res interfaceName cInf h = (st, h')"
  shows "extends n h h'"
proof -
  have same: "extends n h h" using assms(1) by (rule extends_refl)
  have upd: "extends n h (h[res := MapObject m])" for m
    using assms(1,2) by (rule extends_update) (simp add: is_constructed_def)
  from assms(3) same upd show ?thesis
    by (auto simp: store_interface_def split: option.splits heap_object.splits)
qed

lemma visit_interface_heap_extends:
  assumes above: "constructed_above n h" and res: "n \<le> res"
    and run: "visit_interface_heap pcb ccb res interf h = (st, h')"
  shows "extends n h h'"
proof (cases "\<exists>ty interfaceName ident sch.
    deref h interf = Some (EntryObject ty (Some interfaceName) ident sch)
    \<and> ty = Some ''InterfaceInstance'' \<and> interfaceName \<noteq> []")
  case False
  with run have "h' = h"
    by (auto simp: visit_interface_heap_def split: option.splits heap_object.splits if_splits)
  with above show ?thesis by (simp add: extends_refl)
next
  case True
  then obtain interfaceName ident sch where
    entry: "deref h interf =
      Some (EntryObject (Some ''InterfaceInstance'') (Some interfaceName) ident sch)"
    and named: "interfaceName \<noteq> []" by blast
  define h1 where "h1 = h @ [InterfaceObject (new_CommonInterface interfaceName ident pcb ccb)]"
  have e1: "extends n h h1"
    unfolding h1_def using above by (rule extends_append) (simp add: is_constructed_def)
  have a1: "constructed_above n h1" using e1 by (rule extends_above)
  have fresh: "n \<le> length h" using above by (simp add: constructed_above_def)
  show ?thesis
  proof (cases sch)
    case None
    with run entry named have "h' = h1"
      by (simp add: visit_interface_heap_def h1_def Let_def)
    with e1 show ?thesis by simp
  next
    case (Some s)
    show ?thesis
    proof (cases "\<exists>cont. deref h1 s = Some (SchemaObject cont)")
      case False
      with run entry named Some have "h' = h1"
        by (auto simp: visit_interface_heap_def h1_def Let_def
            split: option.splits heap_object.splits)
      with e1 show ?thesis by simp
    next
      case True
      then obtain cont where sc: "deref h1 s = Some (SchemaObject cont)" ..
      obtain st2 h2 where walk: "walk_contents (length h) cont h1 = (st2, h2)"
        by (cases "walk_contents (length h) cont h1")
      have e2: "extends n h1 h2"
        using a1 fresh walk by (rule walk_contents_extends)
      have a2: "constructed_above n h2" using e2 by (rule extends_above)
      show ?thesis
      proof (cases "st2 = Normal")
        case True
        with run entry named Some sc walk
        have "store_interface res interfaceName (length h) h2 = (st, h')"
          by (simp add: visit_interface_heap_def h1_def [symmetric] Let_def)
        from store_interface_extends [OF a2 res this] e1 e2 show ?thesis
          by (blast intro: extends_trans)
      next
        case False
        with run entry named Some sc walk have "h' = h2"
          by (cases st2) (simp_all add: visit_interface_heap_def h1_def [symmetric] Let_def)
        with e1 e2 show ?thesis by (blast intro: extends_trans)
      qed
    qed
  qed
qed

lemma parse_heap_extends:
  assumes "parse_heap h cm pcb ccb = (st, res, h')"
  shows "res = length h \<and> extends (length h) (h @ [MapObject Map.empty]) h'"
proof -
  let ?h0 = "h @ [MapObject Map.empty]"
  have a0: "constructed_above (length h) ?h0"
    by (simp add: constructed_above_def is_constructed_def)
  have res: "res = length h"
    using assms
    by (auto simp: parse_heap_def Let_def split: option.splits heap_object.splits if_splits prod.splits)
  show ?thesis
  proof (cases "\<exists>r a rs. cm = Some r \<and> deref ?h0 r = Some (ModelObject (Some a))
      \<and> deref ?h0 a = Some (ArrayObject rs) \<and> length rs > 0")
    case True
    then obtain a where
      "parse_heap h cm pcb ccb =
        (case forEach_heap (visit_interface_heap pcb ccb (length h)) a ?h0 of
           (st, h') \<Rightarrow> (st, length h, h'))"
      by (auto simp: parse_heap_def Let_def)
    with assms have loop: "forEach_heap (visit_interface_heap pcb ccb (length h)) a ?h0 = (st, h')"
      by (auto split: prod.splits)
    have "extends (length h) ?h0 h'"
      using a0 loop
      by (intro forEach_heap_extends
            [of "length h" "visit_interface_heap pcb ccb (length h)" ?h0 a st h'])
         (auto intro: visit_interface_heap_extends)
    with res show ?thesis by simp
  next
    case False
    with assms have "h' = ?h0"
      by (auto simp: parse_heap_def Let_def split: option.splits heap_object.splits if_splits)
    with res a0 show ?thesis by (simp add: extends_refl)
  qed
qed

subsection \<open>What a call computes\<close>

lemma those_map_nth:
  "those (map f rs) = Some xs \<Longrightarrow>
   length xs = length rs \<and> (\<forall>k<length rs. f (rs ! k) = Some (xs ! k))"
proof (induction rs arbitrary: xs)
  case Nil
  then show ?case by simp
next
  case (Cons r rs)
  then obtain y ys where y: "f r = Some y" and ys: "those (map f rs) = Some ys"
    and xs: "xs = y # ys"
    by (auto split: option.splits)
  from Cons.IH [OF ys] y xs show ?case
    by (auto simp: nth_Cons')
qed

lemma those_map_cong:
  "(\<And>r v. r \<in> set rs \<Longrightarrow> f r = Some v \<Longrightarrow> g r = Some v) \<Longrightarrow>
   those (map f rs) = Some xs \<Longrightarrow> those (map g rs) = Some xs"
proof (induction rs arbitrary: xs)
  case Nil
  then show ?case by simp
next
  case (Cons r rs)
  from Cons.prems(2) obtain y ys where y: "f r = Some y" and ys: "those (map f rs) = Some ys"
    and xs: "xs = y # ys"
    by (auto split: option.splits)
  have "g r = Some y" using Cons.prems(1) [of r y] y by simp
  moreover have "those (map g rs) = Some ys"
    using Cons.IH [OF _ ys] Cons.prems(1) by simp
  ultimately show ?case using xs by simp
qed

lemma kept_deref:
  assumes k: "kept h h'" and d: "deref h r = Some v"
  shows "deref h' r = Some v"
proof -
  from d have r: "r < length h" and v: "v = h ! r"
    by (auto simp: deref_def split: if_splits)
  from k have t: "take (length h) h' = h" by (simp add: kept_def)
  have "length (take (length h) h') = length h" by (simp only: t)
  then have len: "length h \<le> length h'" by simp
  have "take (length h) h' ! r = h' ! r" using r by simp
  then have "h' ! r = h ! r" by (simp only: t)
  with len r v show ?thesis by (simp add: deref_def)
qed

lemma kept_item_at:
  assumes "kept h h'" and "item_at h r = Some v"
  shows "item_at h' r = Some v"
proof -
  from assms(2) obtain ty n w where d: "deref h r = Some (ItemObject ty n w)"
    and v: "v = \<lparr>item_at_type = ty, item_name = n, writable = w\<rparr>"
    by (auto simp: item_at_def split: option.splits heap_object.splits)
  from kept_deref [OF assms(1) d] v show ?thesis by (simp add: item_at_def)
qed

lemma kept_items_at:
  assumes "kept h h'" and "items_at h r = Some v"
  shows "items_at h' r = Some v"
proof -
  from assms(2) obtain rs where d: "deref h r = Some (ArrayObject rs)"
    and v: "those (map (item_at h) rs) = Some v"
    by (auto simp: items_at_def split: option.splits heap_object.splits)
  have "those (map (item_at h') rs) = Some v"
    using v by (rule those_map_cong [rotated]) (rule kept_item_at [OF assms(1)])
  with kept_deref [OF assms(1) d] show ?thesis by (simp add: items_at_def)
qed

lemma kept_schema_at:
  assumes "kept h h'" and "schema_at h r = Some v"
  shows "schema_at h' r = Some v"
proof -
  from assms(2) obtain cont where d: "deref h r = Some (SchemaObject cont)"
    by (auto simp: schema_at_def split: option.splits heap_object.splits)
  note d' = kept_deref [OF assms(1) d]
  show ?thesis
  proof (cases cont)
    case None
    with assms(2) d d' show ?thesis by (simp add: schema_at_def)
  next
    case (Some a)
    with assms(2) d obtain items where i: "items_at h a = Some items"
      and v: "v = \<lparr>contents = Some items\<rparr>"
      by (auto simp: schema_at_def)
    from kept_items_at [OF assms(1) i] Some d' v show ?thesis by (simp add: schema_at_def)
  qed
qed

lemma kept_entry_at:
  assumes "kept h h'" and "entry_at h r = Some v"
  shows "entry_at h' r = Some v"
proof -
  from assms(2) obtain ty nm ident sch where d: "deref h r = Some (EntryObject ty nm ident sch)"
    by (auto simp: entry_at_def split: option.splits heap_object.splits)
  note d' = kept_deref [OF assms(1) d]
  show ?thesis
  proof (cases sch)
    case None
    with assms(2) d d' show ?thesis by (simp add: entry_at_def)
  next
    case (Some s)
    with assms(2) d obtain sc where i: "schema_at h s = Some sc"
      and v: "v = \<lparr>at_type = ty, name = nm, at_id = ident, schema = Some sc\<rparr>"
      by (auto simp: entry_at_def)
    from kept_schema_at [OF assms(1) i] Some d' v show ?thesis by (simp add: entry_at_def)
  qed
qed

lemma kept_model_at:
  assumes "kept h h'" and "model_at h r = Some v"
  shows "model_at h' r = Some v"
proof -
  from assms(2) obtain imp where d: "deref h r = Some (ModelObject imp)"
    by (auto simp: model_at_def split: option.splits heap_object.splits)
  note d' = kept_deref [OF assms(1) d]
  show ?thesis
  proof (cases imp)
    case None
    with assms(2) d d' show ?thesis by (simp add: model_at_def)
  next
    case (Some a)
    with assms(2) d obtain rs es where arr: "deref h a = Some (ArrayObject rs)"
      and es: "those (map (entry_at h) rs) = Some es"
      and v: "v = \<lparr>implements = Some es\<rparr>"
      by (auto simp: model_at_def split: option.splits heap_object.splits)
    have "those (map (entry_at h') rs) = Some es"
      using es by (rule those_map_cong [rotated]) (rule kept_entry_at [OF assms(1)])
    with kept_deref [OF assms(1) arr] Some d' v show ?thesis by (simp add: model_at_def)
  qed
qed

lemma kept_document_at:
  "kept h h' \<Longrightarrow> document_at h cm = Some v \<Longrightarrow> document_at h' cm = Some v"
  by (auto simp: document_at_def split: option.splits dest: kept_model_at)

lemma parse_heap_kept:
  assumes "parse_heap h cm pcb ccb = (st, res, h')"
  shows "kept h h'"
  using parse_heap_extends [OF assms] by (simp add: extends_def kept_def)

lemma kept_refl: "kept h h"
  by (simp add: kept_def)

lemma kept_length: "kept h0 h \<Longrightarrow> length h0 \<le> length h"
proof -
  assume "kept h0 h"
  then have "length (take (length h0) h) = length h0" by (simp add: kept_def)
  then show ?thesis by simp
qed

lemma kept_update: "kept h0 h \<Longrightarrow> length h0 \<le> c \<Longrightarrow> kept h0 (h[c := v])"
  by (simp add: kept_def)

lemma kept_append: "kept h0 h \<Longrightarrow> kept h0 (h @ xs)"
  using kept_length [of h0 h] by (simp add: kept_def)

lemma deref_append_old: "r < length h \<Longrightarrow> deref (h @ xs) r = deref h r"
  by (simp add: deref_def nth_append)

lemma deref_append_new: "deref (h @ [v]) (length h) = Some v"
  by (simp add: deref_def)

lemma deref_update_same: "c < length h \<Longrightarrow> deref (h[c := v]) c = Some v"
  by (simp add: deref_def)

lemma deref_update_other: "r \<noteq> c \<Longrightarrow> deref (h[c := v]) r = deref h r"
  by (simp add: deref_def)

lemma deref_bound: "deref h r = Some v \<Longrightarrow> r < length h \<and> h ! r = v"
  by (auto simp: deref_def split: if_splits)

lemma visit_item_heap_refines:
  assumes c: "deref h c = Some (InterfaceObject d)" and r: "item_at h r = Some item"
  shows "visit_item_heap c r h = (Normal, h[c := InterfaceObject (visit_item item d)])"
proof -
  from r obtain ty n w where o: "deref h r = Some (ItemObject ty n w)"
    and item: "item = \<lparr>item_at_type = ty, item_name = n, writable = w\<rparr>"
    by (auto simp: item_at_def split: option.splits heap_object.splits)
  from deref_bound [OF c] have same: "h[c := InterfaceObject d] = h"
    by (simp add: list_update_same_conv)
  show ?thesis
    by (simp add: visit_item_heap_def visit_item_def o c item same)
qed

lemma forEach_from_items:
  assumes arr: "deref h0 a = Some (ArrayObject rs)"
    and items: "those (map (item_at h0) rs) = Some items"
    and c: "length h0 \<le> c"
  shows "kept h0 h \<Longrightarrow> deref h c = Some (InterfaceObject d) \<Longrightarrow> k + m = length rs \<Longrightarrow>
    forEach_from (visit_item_heap c) a k m h =
      (Normal, h[c := InterfaceObject (forEach visit_item (drop k items) d)])"
proof (induction m arbitrary: k h d)
  case 0
  from those_map_nth [OF items] 0 have "drop k items = []" by simp
  moreover from deref_bound [OF "0.prems"(2)] have "h[c := InterfaceObject d] = h"
    by (simp add: list_update_same_conv)
  ultimately show ?case by simp
next
  case (Suc m)
  from those_map_nth [OF items] have len: "length items = length rs"
    and at: "\<And>j. j < length rs \<Longrightarrow> item_at h0 (rs ! j) = Some (items ! j)" by simp_all
  from Suc.prems(3) have k: "k < length rs" by simp
  have arr': "deref h a = Some (ArrayObject rs)"
    using Suc.prems(1) arr by (rule kept_deref)
  have item: "item_at h (rs ! k) = Some (items ! k)"
    using Suc.prems(1) at [OF k] by (rule kept_item_at)
  let ?d1 = "visit_item (items ! k) d"
  let ?h1 = "h[c := InterfaceObject ?d1]"
  have step: "visit_item_heap c (rs ! k) h = (Normal, ?h1)"
    using Suc.prems(2) item by (rule visit_item_heap_refines)
  have k1: "kept h0 ?h1" using Suc.prems(1) c by (rule kept_update)
  have c1: "deref ?h1 c = Some (InterfaceObject ?d1)"
    using deref_bound [OF Suc.prems(2)] by (simp add: deref_update_same)
  have rest: "Suc k + m = length rs" using Suc.prems(3) by simp
  have split: "drop k items = items ! k # drop (Suc k) items"
    using k len by (simp add: Cons_nth_drop_Suc)
  from Suc.IH [OF k1 c1 rest] arr' k step split show ?case by simp
qed

lemma walk_contents_refines:
  assumes kept: "kept h0 h"
    and obj: "deref h0 s = Some (SchemaObject cont)"
    and sch: "schema_at h0 s = Some sch"
    and c: "length h0 \<le> c"
    and d: "deref h c = Some (InterfaceObject d)"
  shows "walk_contents c cont h =
    (Normal, h[c := InterfaceObject
       (case contents sch of
          None \<Rightarrow> d
        | Some items \<Rightarrow> if length items > 0 then forEach visit_item items d else d)])"
proof -
  from deref_bound [OF d] have same: "h[c := InterfaceObject d] = h"
    by (simp add: list_update_same_conv)
  show ?thesis
  proof (cases cont)
    case None
    with obj sch have "sch = \<lparr>contents = None\<rparr>" by (simp add: schema_at_def)
    with None same show ?thesis by (simp add: walk_contents_def)
  next
    case (Some a)
    with obj sch obtain rs items where arr: "deref h0 a = Some (ArrayObject rs)"
      and items: "those (map (item_at h0) rs) = Some items"
      and sc: "sch = \<lparr>contents = Some items\<rparr>"
      by (auto simp: schema_at_def items_at_def split: option.splits heap_object.splits)
    from those_map_nth [OF items] have len: "length items = length rs" by simp
    have arr': "deref h a = Some (ArrayObject rs)" using kept arr by (rule kept_deref)
    show ?thesis
    proof (cases "length rs > 0")
      case True
      have "forEach_from (visit_item_heap c) a 0 (length rs) h =
          (Normal, h[c := InterfaceObject (forEach visit_item (drop 0 items) d)])"
        using arr items c kept d by (rule forEach_from_items) simp
      with True Some arr' sc len show ?thesis
        by (simp add: walk_contents_def forEach_heap_def)
    next
      case False
      with Some arr' sc len same show ?thesis by (simp add: walk_contents_def)
    qed
  qed
qed

lemma store_interface_refines:
  assumes inv: "map_inv res h" and abs: "result_at h res = Some M"
    and c: "deref h c = Some (InterfaceObject d)" and cres: "c \<noteq> res"
  shows "\<exists>m'. store_interface res n c h = (Normal, h[res := MapObject m'])
           \<and> map_inv res (h[res := MapObject m'])
           \<and> result_at (h[res := MapObject m']) res = Some (M(n \<mapsto> d))"
proof -
  from inv obtain m where m: "deref h res = Some (MapObject m)"
    and refs: "\<And>k c. m k = Some c \<Longrightarrow> c \<noteq> res \<and> (\<exists>d. deref h c = Some (InterfaceObject d))"
    by (auto simp: map_inv_def)
  let ?h' = "h[res := MapObject (m(n \<mapsto> c))]"
  have run: "store_interface res n c h = (Normal, ?h')"
    by (simp add: store_interface_def m)
  have res': "deref ?h' res = Some (MapObject (m(n \<mapsto> c)))"
    using deref_bound [OF m] by (simp add: deref_update_same)
  have other: "r \<noteq> res \<Longrightarrow> deref ?h' r = deref h r" for r
    by (rule deref_update_other)
  have refs': "\<forall>k c'. (m(n \<mapsto> c)) k = Some c' \<longrightarrow>
      c' \<noteq> res \<and> (\<exists>d. deref ?h' c' = Some (InterfaceObject d))"
  proof (intro allI impI)
    fix k c' assume "(m(n \<mapsto> c)) k = Some c'"
    then have "c' = c \<or> m k = Some c'" by (auto split: if_splits)
    then have "c' \<noteq> res \<and> (\<exists>d. deref h c' = Some (InterfaceObject d))"
      using cres c refs by blast
    then show "c' \<noteq> res \<and> (\<exists>d. deref ?h' c' = Some (InterfaceObject d))"
      by (simp add: other)
  qed
  have inv': "map_inv res ?h'"
    unfolding map_inv_def using res' refs' by blast
  from abs m have M: "M = (\<lambda>k. case m k of None \<Rightarrow> None
      | Some c \<Rightarrow> (case deref h c of Some (InterfaceObject d) \<Rightarrow> Some d | _ \<Rightarrow> None))"
    by (simp add: result_at_def)
  have "(case (m(n \<mapsto> c)) k of None \<Rightarrow> None
      | Some c \<Rightarrow> (case deref ?h' c of Some (InterfaceObject d) \<Rightarrow> Some d | _ \<Rightarrow> None))
      = (M(n \<mapsto> d)) k" for k
  proof (cases "k = n")
    case True
    with c cres show ?thesis by (simp add: other)
  next
    case False
    show ?thesis
    proof (cases "m k")
      case None
      with False show ?thesis by (simp add: M)
    next
      case (Some c')
      with refs have "c' \<noteq> res" by blast
      with False Some show ?thesis by (simp add: M other)
    qed
  qed
  then have abs': "result_at ?h' res = Some (M(n \<mapsto> d))"
    by (simp add: result_at_def res' fun_eq_iff)
  from run inv' abs' show ?thesis by blast
qed

lemma result_at_frame:
  assumes inv: "map_inv res h" and abs: "result_at h res = Some M"
    and same: "\<And>r v. deref h r = Some v \<Longrightarrow> deref h' r = Some v"
  shows "map_inv res h' \<and> result_at h' res = Some M"
proof -
  from inv obtain m where m: "deref h res = Some (MapObject m)"
    and refs: "\<And>k c. m k = Some c \<Longrightarrow> c \<noteq> res \<and> (\<exists>d. deref h c = Some (InterfaceObject d))"
    by (auto simp: map_inv_def)
  from same [OF m] have m': "deref h' res = Some (MapObject m)" .
  have inv': "map_inv res h'"
    unfolding map_inv_def using m' refs same by blast
  from abs m have M: "M = (\<lambda>k. case m k of None \<Rightarrow> None
      | Some c \<Rightarrow> (case deref h c of Some (InterfaceObject d) \<Rightarrow> Some d | _ \<Rightarrow> None))"
    by (simp add: result_at_def)
  have "(case m k of None \<Rightarrow> None
      | Some c \<Rightarrow> (case deref h' c of Some (InterfaceObject d) \<Rightarrow> Some d | _ \<Rightarrow> None))
      = M k" for k
  proof (cases "m k")
    case None
    then show ?thesis by (simp add: M)
  next
    case (Some c)
    with refs obtain d where "deref h c = Some (InterfaceObject d)" by blast
    with same [OF this] Some show ?thesis by (simp add: M)
  qed
  then have "result_at h' res = Some M"
    by (simp add: result_at_def m' fun_eq_iff)
  with inv' show ?thesis by simp
qed

lemma visit_interface_heap_refines:
  assumes kept: "kept h0 h" and entry: "entry_at h0 r = Some e"
    and res: "length h0 \<le> res" and inv: "map_inv res h" and abs: "result_at h res = Some M"
  shows "\<exists>st h'. visit_interface_heap pcb ccb res r h = (st, h') \<and> kept h0 h'
           \<and> (case visit_interface pcb ccb e M of
                 Inl err \<Rightarrow> st = Raised err
               | Inr M' \<Rightarrow> st = Normal \<and> map_inv res h' \<and> result_at h' res = Some M')"
proof -
  from entry obtain ty nm ident sch where o0: "deref h0 r = Some (EntryObject ty nm ident sch)"
    by (auto simp: entry_at_def split: option.splits heap_object.splits)
  have o: "deref h r = Some (EntryObject ty nm ident sch)" using kept o0 by (rule kept_deref)
  from entry o0 have fields: "at_type e = ty" "name e = nm" "at_id e = ident"
    by (auto simp: entry_at_def split: option.splits)
  show ?thesis
  proof (cases "\<exists>n. ty = Some ''InterfaceInstance'' \<and> nm = Some n \<and> n \<noteq> []")
    case False
    then have "visit_interface_heap pcb ccb res r h = (Normal, h)"
      by (auto simp: visit_interface_heap_def o split: option.splits)
    moreover from False have "visit_interface pcb ccb e M = Inr M"
      by (auto simp: visit_interface_def fields split: option.splits)
    ultimately show ?thesis using kept inv abs by simp
  next
    case True
    then obtain n where ty: "ty = Some ''InterfaceInstance''" and nm: "nm = Some n"
      and n: "n \<noteq> []" by blast
    define d0 where "d0 = new_CommonInterface n ident pcb ccb"
    define h1 where "h1 = h @ [InterfaceObject d0]"
    have k1: "kept h0 h1" unfolding h1_def using kept by (rule kept_append)
    have old1: "deref h1 x = Some v" if "deref h x = Some v" for x v
      using deref_bound [OF that] that by (simp add: h1_def deref_append_old)
    have c1: "deref h1 (length h) = Some (InterfaceObject d0)"
      by (simp add: h1_def deref_append_new)
    show ?thesis
    proof (cases sch)
      case None
      then have "visit_interface_heap pcb ccb res r h = (Raised TypeError, h1)"
        by (simp add: visit_interface_heap_def o ty nm n h1_def d0_def Let_def)
      moreover from None entry o0 have "schema e = None"
        by (auto simp: entry_at_def)
      then have "visit_interface pcb ccb e M = Inl TypeError"
        by (simp add: visit_interface_def fields ty nm n Let_def)
      ultimately show ?thesis using k1 by simp
    next
      case (Some s)
      with entry o0 obtain sc where sc: "schema_at h0 s = Some sc" and se: "schema e = Some sc"
        by (auto simp: entry_at_def)
      from sc obtain cont where so0: "deref h0 s = Some (SchemaObject cont)"
        by (auto simp: schema_at_def split: option.splits heap_object.splits)
      have so1: "deref h1 s = Some (SchemaObject cont)" using k1 so0 by (rule kept_deref)
      have fresh: "length h0 \<le> length h" using kept by (rule kept_length)
      define dfin where "dfin = (case contents sc of None \<Rightarrow> d0
        | Some items \<Rightarrow> if length items > 0 then forEach visit_item items d0 else d0)"
      define h2 where "h2 = h1[length h := InterfaceObject dfin]"
      have walk: "walk_contents (length h) cont h1 = (Normal, h2)"
        unfolding h2_def dfin_def using k1 so0 sc fresh c1 by (rule walk_contents_refines)
      have k2: "kept h0 h2" unfolding h2_def using k1 fresh by (rule kept_update)
      have c2: "deref h2 (length h) = Some (InterfaceObject dfin)"
        using deref_bound [OF c1] by (simp add: h2_def deref_update_same)
      have old2: "deref h2 x = Some v" if "deref h x = Some v" for x v
      proof -
        from deref_bound [OF that] have "x \<noteq> length h" by simp
        then show ?thesis using old1 [OF that] by (simp add: h2_def deref_update_other)
      qed
      from result_at_frame [OF inv abs old2]
      have inv2: "map_inv res h2" and abs2: "result_at h2 res = Some M" by simp_all
      from inv obtain m where "deref h res = Some (MapObject m)" by (auto simp: map_inv_def)
      from deref_bound [OF this] have cres: "length h \<noteq> res" by simp
      from store_interface_refines [OF inv2 abs2 c2 cres, of n]
      obtain m' where store: "store_interface res n (length h) h2 = (Normal, h2[res := MapObject m'])"
        and inv3: "map_inv res (h2[res := MapObject m'])"
        and abs3: "result_at (h2[res := MapObject m']) res = Some (M(n \<mapsto> dfin))"
        by blast
      have k3: "kept h0 (h2[res := MapObject m'])" using k2 res by (rule kept_update)
      have run: "visit_interface_heap pcb ccb res r h = (Normal, h2[res := MapObject m'])"
        using walk store
        by (simp add: visit_interface_heap_def o ty nm n Some Let_def
            h1_def [symmetric] d0_def [symmetric] so1)
      have pure: "visit_interface pcb ccb e M = Inr (M(n \<mapsto> dfin))"
        unfolding dfin_def d0_def
        by (simp add: visit_interface_def fields ty nm n se Let_def)
      from run pure k3 inv3 abs3 show ?thesis by simp
    qed
  qed
qed

lemma forEach_from_entries:
  assumes arr: "deref h0 a = Some (ArrayObject rs)"
    and es: "those (map (entry_at h0) rs) = Some es"
    and res: "length h0 \<le> res"
  shows "kept h0 h \<Longrightarrow> map_inv res h \<Longrightarrow> result_at h res = Some M \<Longrightarrow> k + m = length rs \<Longrightarrow>
    \<exists>st h'. forEach_from (visit_interface_heap pcb ccb res) a k m h = (st, h')
      \<and> (case forEach_raising (visit_interface pcb ccb) (drop k es) M of
            Inl err \<Rightarrow> st = Raised err
          | Inr M' \<Rightarrow> st = Normal \<and> result_at h' res = Some M')"
proof (induction m arbitrary: k h M)
  case 0
  from those_map_nth [OF es] 0 have "drop k es = []" by simp
  with 0 show ?case by simp
next
  case (Suc m)
  from those_map_nth [OF es] have len: "length es = length rs"
    and at: "\<And>j. j < length rs \<Longrightarrow> entry_at h0 (rs ! j) = Some (es ! j)" by simp_all
  from Suc.prems(4) have k: "k < length rs" by simp
  have arr': "deref h a = Some (ArrayObject rs)"
    using Suc.prems(1) arr by (rule kept_deref)
  have split: "drop k es = es ! k # drop (Suc k) es"
    using k len by (simp add: Cons_nth_drop_Suc)
  from visit_interface_heap_refines [OF Suc.prems(1) at [OF k] res Suc.prems(2,3), of pcb ccb]
  obtain st1 h1 where step: "visit_interface_heap pcb ccb res (rs ! k) h = (st1, h1)"
    and k1: "kept h0 h1"
    and rel: "case visit_interface pcb ccb (es ! k) M of
                Inl err \<Rightarrow> st1 = Raised err
              | Inr M' \<Rightarrow> st1 = Normal \<and> map_inv res h1 \<and> result_at h1 res = Some M'"
    by blast
  show ?case
  proof (cases "visit_interface pcb ccb (es ! k) M")
    case (Inl err)
    with rel have "st1 = Raised err" by simp
    with Inl arr' k step split show ?thesis by simp
  next
    case (Inr M')
    with rel have st1: "st1 = Normal" and inv1: "map_inv res h1"
      and abs1: "result_at h1 res = Some M'" by simp_all
    have rest: "Suc k + m = length rs" using Suc.prems(4) by simp
    from Suc.IH [OF k1 inv1 abs1 rest] Inr arr' k step st1 split show ?thesis by simp
  qed
qed

lemma parse_heap_refines_parse:
  assumes doc: "document_at h cm = Some doc"
    and run: "parse_heap h cm pcb ccb = (st, res, h')"
  shows "case parse doc pcb ccb of
           Inl err \<Rightarrow> st = Raised err
         | Inr M \<Rightarrow> st = Normal \<and> result_at h' res = Some M"
proof -
  let ?h0 = "h @ [MapObject Map.empty]"
  have k0: "kept h ?h0" by (simp add: kept_def)
  have res0: "deref ?h0 (length h) = Some (MapObject Map.empty)" by (rule deref_append_new)
  have inv0: "map_inv (length h) ?h0" by (simp add: map_inv_def res0)
  have abs0: "result_at ?h0 (length h) = Some Map.empty" by (simp add: result_at_def res0)
  have empty: "parse doc pcb ccb = Inr Map.empty \<Longrightarrow>
      parse_heap h cm pcb ccb = (Normal, length h, ?h0) \<Longrightarrow> ?thesis"
    using run abs0 by simp
  show ?thesis
  proof (cases cm)
    case None
    with doc have "doc = None" by (simp add: document_at_def)
    then have "parse doc pcb ccb = Inr Map.empty" by (simp add: parse_def)
    moreover from None have "parse_heap h cm pcb ccb = (Normal, length h, ?h0)"
      by (simp add: parse_heap_def Let_def)
    ultimately show ?thesis by (rule empty)
  next
    case (Some r)
    with doc obtain model where model: "model_at h r = Some model" and d: "doc = Some model"
      by (auto simp: document_at_def)
    from model obtain imp where mo: "deref h r = Some (ModelObject imp)"
      by (auto simp: model_at_def split: option.splits heap_object.splits)
    have mo0: "deref ?h0 r = Some (ModelObject imp)" using k0 mo by (rule kept_deref)
    show ?thesis
    proof (cases imp)
      case None
      with model mo have "model = \<lparr>implements = None\<rparr>" by (simp add: model_at_def)
      with d have "parse doc pcb ccb = Inr Map.empty" by (simp add: parse_def)
      moreover from None Some mo0 have "parse_heap h cm pcb ccb = (Normal, length h, ?h0)"
        by (simp add: parse_heap_def Let_def)
      ultimately show ?thesis by (rule empty)
    next
      case (Some a)
      with model mo obtain rs es where arr: "deref h a = Some (ArrayObject rs)"
        and es: "those (map (entry_at h) rs) = Some es"
        and m: "model = \<lparr>implements = Some es\<rparr>"
        by (auto simp: model_at_def split: option.splits heap_object.splits)
      have arr0: "deref ?h0 a = Some (ArrayObject rs)" using k0 arr by (rule kept_deref)
      from those_map_nth [OF es] have len: "length es = length rs" by simp
      show ?thesis
      proof (cases "length rs > 0")
        case False
        with len d m have "parse doc pcb ccb = Inr Map.empty" by (simp add: parse_def)
        moreover from False Some \<open>cm = Some r\<close> mo0 arr0
        have "parse_heap h cm pcb ccb = (Normal, length h, ?h0)"
          by (simp add: parse_heap_def Let_def)
        ultimately show ?thesis by (rule empty)
      next
        case True
        from forEach_from_entries [OF arr es order_refl k0 inv0 abs0, of 0 "length rs" pcb ccb]
        obtain st1 h1 where
          loop: "forEach_from (visit_interface_heap pcb ccb (length h)) a 0 (length rs) ?h0 = (st1, h1)"
          and rel: "case forEach_raising (visit_interface pcb ccb) es Map.empty of
                      Inl err \<Rightarrow> st1 = Raised err
                    | Inr M' \<Rightarrow> st1 = Normal \<and> result_at h1 (length h) = Some M'"
          by auto
        from True len d m
        have pure: "parse doc pcb ccb = forEach_raising (visit_interface pcb ccb) es Map.empty"
          by (simp add: parse_def)
        from True Some \<open>cm = Some r\<close> mo0 arr0 loop
        have "parse_heap h cm pcb ccb = (st1, length h, h1)"
          by (simp add: parse_heap_def Let_def forEach_heap_def)
        with run have "st = st1" "res = length h" "h' = h1" by simp_all
        with rel pure show ?thesis by (simp split: sum.splits)
      qed
    qed
  qed
qed

lemmas abstraction_defs =
  document_at_def model_at_def entry_at_def schema_at_def items_at_def item_at_def deref_def

text \<open>
  Claim C7. \<^verbatim>\<open>parse\<close> never mutates its argument: after any call, however it ends, the
  store is the store before the call followed by fresh objects, so the capability
  model, its \<^verbatim>\<open>implements\<close> array, every interface entry and every item of a
  \<^verbatim>\<open>schema.contents\<close> are unchanged, and the document read from the store is the same.
  All construction happens in the fresh objects, which are the result map and the
  descriptors.
\<close>

theorem parse_heap_frame:
  assumes "parse_heap h cm pcb ccb = (st, res, h')"
  shows "(\<exists>fresh. h' = h @ fresh \<and> (\<forall>obj\<in>set fresh. is_constructed obj))
         \<and> res = length h
         \<and> (\<forall>doc. document_at h cm = Some doc \<longrightarrow> document_at h' cm = Some doc)"
proof -
  from parse_heap_extends [OF assms]
  have res: "res = length h"
    and keep: "take (length h) h' = h"
    and above: "\<forall>obj\<in>set (drop (length h) h'). is_constructed obj"
    by (simp_all add: extends_def constructed_above_def)
  have "h' = take (length h) h' @ drop (length h) h'" by simp
  with keep have "h' = h @ drop (length h) h'" by simp
  with above have grown: "\<exists>fresh. h' = h @ fresh \<and> (\<forall>obj\<in>set fresh. is_constructed obj)"
    by blast
  have doc: "\<forall>doc. document_at h cm = Some doc \<longrightarrow> document_at h' cm = Some doc"
    using kept_document_at [OF parse_heap_kept [OF assms]] by blast
  from grown res doc show ?thesis by simp
qed

lemma parse_heap_late:
  "parse_heap heap_late (Some 0) () () =
     (Normal, 6,
      heap_late @ [MapObject (Map.empty(''sensor'' \<mapsto> 7)),
                   InterfaceObject (descriptor_of () () ''sensor'' entry_late)])"
  by (simp add: parse_heap_def heap_late_def forEach_heap_def visit_interface_heap_def
      walk_contents_def store_interface_def visit_item_heap_def deref_def Let_def
      descriptor_of_def items_of_def entry_late_def item_mode_def visit_item_def
      new_CommonInterface_def addProperty_def eval_nat_numeral)

theorem parse_heap_frame_witness:
  "parse_heap heap_late (Some 0) () () =
     (Normal, 6,
      heap_late @ [MapObject (Map.empty(''sensor'' \<mapsto> 7)),
                   InterfaceObject (descriptor_of () () ''sensor'' entry_late)])
   \<and> length heap_late = 6
   \<and> document_at heap_late (Some 0) = Some model_late
   \<and> document_at
        (heap_late @ [MapObject (Map.empty(''sensor'' \<mapsto> 7)),
                      InterfaceObject (descriptor_of () () ''sensor'' entry_late)])
        (Some 0) = Some model_late"
proof -
  have doc: "document_at heap_late (Some 0) = Some model_late"
    by (simp add: abstraction_defs heap_late_def model_late_def entry_late_def item_mode_def)
  have size: "length heap_late = 6" by (simp add: heap_late_def)
  from parse_heap_frame [OF parse_heap_late] doc
  have "document_at
        (heap_late @ [MapObject (Map.empty(''sensor'' \<mapsto> 7)),
                      InterfaceObject (descriptor_of () () ''sensor'' entry_late)])
        (Some 0) = Some model_late"
    by blast
  with parse_heap_late size doc show ?thesis by (intro conjI)
qed

text \<open>
  Claim C6. \<^verbatim>\<open>parse\<close> is stateless and deterministic: two calls with the same callbacks
  on structurally equal documents, in whatever stores and at whatever references, end
  the same way and return equal maps, and so does a further call on the same document
  in the store the first call left behind. The outcome is that of the function
  \<open>parse\<close> of the document and the callbacks alone.
\<close>

theorem parse_heap_deterministic:
  assumes "document_at h1 cm1 = Some doc" and "document_at h2 cm2 = Some doc"
    and "parse_heap h1 cm1 pcb ccb = (st1, res1, h1')"
    and "parse_heap h2 cm2 pcb ccb = (st2, res2, h2')"
    and "parse_heap h1' cm1 pcb ccb = (st3, res3, h3)"
  shows "st2 = st1 \<and> st3 = st1
         \<and> (case parse doc pcb ccb of
               Inl err \<Rightarrow> st1 = Raised err
             | Inr M \<Rightarrow> st1 = Normal \<and> result_at h1' res1 = Some M
                         \<and> result_at h2' res2 = Some M \<and> result_at h3 res3 = Some M)"
proof -
  have again: "document_at h1' cm1 = Some doc"
    using parse_heap_kept [OF assms(3)] assms(1) by (rule kept_document_at)
  note first = parse_heap_refines_parse [OF assms(1) assms(3)]
  note second = parse_heap_refines_parse [OF assms(2) assms(4)]
  note third = parse_heap_refines_parse [OF again assms(5)]
  from first second third show ?thesis
    by (cases "parse doc pcb ccb") simp_all
qed

theorem parse_heap_deterministic_witness:
  "document_at heap_late (Some 0) = Some model_late
   \<and> document_at heap_late_moved (Some 5) = Some model_late
   \<and> parse model_late () () = Inr (Map.empty(''sensor'' \<mapsto> descriptor_of () () ''sensor'' entry_late))
   \<and> fst (parse_heap heap_late (Some 0) () ()) = Normal
   \<and> fst (parse_heap heap_late_moved (Some 5) () ()) = Normal
   \<and> result_at (snd (snd (parse_heap heap_late (Some 0) () ())))
        (fst (snd (parse_heap heap_late (Some 0) () ())))
      = Some (Map.empty(''sensor'' \<mapsto> descriptor_of () () ''sensor'' entry_late))
   \<and> result_at (snd (snd (parse_heap heap_late_moved (Some 5) () ())))
        (fst (snd (parse_heap heap_late_moved (Some 5) () ())))
      = Some (Map.empty(''sensor'' \<mapsto> descriptor_of () () ''sensor'' entry_late))"
proof -
  let ?M = "Map.empty(''sensor'' \<mapsto> descriptor_of () () ''sensor'' entry_late)"
  have doc1: "document_at heap_late (Some 0) = Some model_late"
    by (simp add: abstraction_defs heap_late_def model_late_def entry_late_def item_mode_def)
  have doc2: "document_at heap_late_moved (Some 5) = Some model_late"
    by (simp add: abstraction_defs heap_late_moved_def model_late_def entry_late_def
        item_mode_def)
  have pure: "parse model_late () () = Inr ?M"
    by (simp add: model_late_def entry_late_def item_mode_def eval_defs)
  obtain st1 res1 h1' where run1: "parse_heap heap_late (Some 0) () () = (st1, res1, h1')"
    by (cases "parse_heap heap_late (Some 0) () ()") auto
  obtain st2 res2 h2' where run2: "parse_heap heap_late_moved (Some 5) () () = (st2, res2, h2')"
    by (cases "parse_heap heap_late_moved (Some 5) () ()") auto
  obtain st3 res3 h3 where run3: "parse_heap h1' (Some 0) () () = (st3, res3, h3)"
    by (cases "parse_heap h1' (Some 0) () ()") auto
  from parse_heap_deterministic [OF doc1 doc2 run1 run2 run3] pure
  have "st1 = Normal" "st2 = Normal" "result_at h1' res1 = Some ?M" "result_at h2' res2 = Some ?M"
    by simp_all
  with doc1 doc2 pure run1 run2 show ?thesis by simp
qed

section \<open>Properties of the client facade\<close>

lemma in_both_forms_all: "\<forall>n\<in>set client_operations. in_both_forms n"
  by (simp add: client_operations_def in_both_forms_def declared_signatures_def sig_def
      is_promise_form_def is_callback_form_def callback_form_of_def promise_form_of_def)

lemma delivered_facade_call:
  "delivered (facade_call implementation request with_callback) = Some (implementation request)"
  by (cases "implementation request")
     (simp_all add: delivered_def facade_call_def Let_def)

text \<open>
  Claim C4. Each of connect, disconnect, sendTelemetry, sendProperty, acknowledge, update
  and report is declared in both a promise form and a callback form, and for the same
  request the callback form delivers the outcome that the promise form settles with,
  which is the outcome of the call forwarded to the injected implementation.
\<close>

theorem facade_forms_agree:
  "(\<forall>n\<in>set client_operations. in_both_forms n)
   \<and> delivered (facade_call implementation request True)
       = delivered (facade_call implementation request False)
   \<and> delivered (facade_call implementation request False) = Some (implementation request)"
  using in_both_forms_all by (simp add: delivered_facade_call)

theorem facade_forms_agree_witness:
  "''sendTelemetry'' \<in> set client_operations
   \<and> in_both_forms ''sendTelemetry''
   \<and> delivered (facade_call sample_transport ''refused'' True) = Some (Inl ''not connected'')
   \<and> delivered (facade_call sample_transport ''refused'' False) = Some (Inl ''not connected'')
   \<and> facade_call sample_transport ''telemetry'' True = Callback_invoked None (Some 200)
   \<and> facade_call sample_transport ''telemetry'' False = Promise_settled (Inr 200)"
proof -
  have listed: "''sendTelemetry'' \<in> set client_operations"
    by (simp add: client_operations_def)
  have refused: "sample_transport ''refused'' = Inl ''not connected''"
    by (simp add: sample_transport_def)
  note claim = facade_forms_agree [of sample_transport "''refused''"]
  from claim listed have both: "in_both_forms ''sendTelemetry''" by blast
  from claim refused
  have cb: "delivered (facade_call sample_transport ''refused'' True) = Some (Inl ''not connected'')"
    and pr: "delivered (facade_call sample_transport ''refused'' False) = Some (Inl ''not connected'')"
    by simp_all
  have run: "facade_call sample_transport ''telemetry'' True = Callback_invoked None (Some 200)"
    "facade_call sample_transport ''telemetry'' False = Promise_settled (Inr 200)"
    by (simp_all add: facade_call_def sample_transport_def)
  from listed both cb pr run show ?thesis by (intro conjI)
qed

end
